theory Spec2Isabelle
  imports Complex_Main "HOL-Library.Sublist" "HOL-Library.List_Lexorder" "HOL-Library.Char_ord"
    "HOL-Library.Product_Lexorder"
begin

section \<open>The admin panel of nanobot (nanobot/admin/server.py)\<close>

text \<open>
  A shallow embedding of \<^verbatim>\<open>AdminServer\<close> and its helpers. A Python \<^verbatim>\<open>str\<close> is a
  \<^typ>\<open>string\<close>, one list element standing for one code point: the functions below only
  compare, take prefixes of, split and slice strings, which does not depend on the
  alphabet. The lexicographic order on \<^typ>\<open>string\<close> (from \<^verbatim>\<open>List_Lexorder\<close> and
  \<^verbatim>\<open>Char_ord\<close>) is the order of Python's \<^verbatim>\<open>str.__lt__\<close>; pairs are ordered
  lexicographically like Python tuples, and \<^term>\<open>False < True\<close> as in Python.
\<close>

subsection \<open>Python values\<close>

text \<open>
  The values found in the dictionaries of the session store. \<^verbatim>\<open>dict.get\<close> returns
  \<^verbatim>\<open>None\<close> for a missing key, \<^verbatim>\<open>a or b\<close> is \<^verbatim>\<open>a\<close> when \<^verbatim>\<open>a\<close> is truthy and
  \<^verbatim>\<open>b\<close> otherwise, and the slice \<^verbatim>\<open>v[:n]\<close> is defined on sequences and raises
  \<^verbatim>\<open>TypeError\<close> on the other values.
\<close>

datatype pyval = PNone | PBool bool | PInt int | PStr string | PList "pyval list"

datatype py_exception = TypeError

type_synonym dict = "string \<rightharpoonup> pyval"

definition dict_get :: "dict \<Rightarrow> string \<Rightarrow> pyval" where
  "dict_get m k = (case m k of None \<Rightarrow> PNone | Some v \<Rightarrow> v)"

definition dict_get_default :: "dict \<Rightarrow> string \<Rightarrow> pyval \<Rightarrow> pyval" where
  "dict_get_default m k d = (case m k of None \<Rightarrow> d | Some v \<Rightarrow> v)"

fun truthy :: "pyval \<Rightarrow> bool" where
  "truthy PNone = False"
| "truthy (PBool b) = b"
| "truthy (PInt i) = (i \<noteq> 0)"
| "truthy (PStr s) = (s \<noteq> [])"
| "truthy (PList xs) = (xs \<noteq> [])"

definition py_or :: "pyval \<Rightarrow> pyval \<Rightarrow> pyval" where
  "py_or a b = (if truthy a then a else b)"

fun slice_upto :: "nat \<Rightarrow> pyval \<Rightarrow> py_exception + pyval" where
  "slice_upto n (PStr s) = Inr (PStr (take n s))"
| "slice_upto n (PList xs) = Inr (PList (take n xs))"
| "slice_upto n v = Inl TypeError"

text \<open>\<^verbatim>\<open>xs[-n:]\<close> for a positive \<^verbatim>\<open>n\<close>: the last \<^verbatim>\<open>n\<close> elements, or all of them.\<close>

definition last_n :: "nat \<Rightarrow> 'a list \<Rightarrow> 'a list" where
  "last_n n xs = drop (length xs - n) xs"

subsection \<open>Requests and responses\<close>

datatype 'b body = TextBody string | JsonBody 'b

record 'b response =
  status :: nat
  resp_headers :: "(string \<times> string) list"
  body :: "'b body"

definition json_response :: "'b \<Rightarrow> nat \<Rightarrow> 'b response" where
  "json_response data st = \<lparr>status = st, resp_headers = [], body = JsonBody data\<rparr>"

record request =
  headers :: "string \<rightharpoonup> string"

definition headers_get :: "request \<Rightarrow> string \<Rightarrow> string \<Rightarrow> string" where
  "headers_get req k d = (case headers req k of None \<Rightarrow> d | Some v \<Rightarrow> v)"

text \<open>
  What a handler does with a request: it returns a response, or it raises. The handler
  of an unmatched route raises; \<^verbatim>\<open>except Exception\<close> catches the first kind of
  exception and not the second (\<^verbatim>\<open>CancelledError\<close>, \<^verbatim>\<open>KeyboardInterrupt\<close>).
\<close>

datatype raised = Raised_Exception | Raised_BaseException

datatype 'b outcome = Returned "'b response" | Raised raised

subsection \<open>Auth middleware\<close>

text \<open>\<^verbatim>\<open>s.split(sep, 1)\<close> for a one-character separator, and \<^verbatim>\<open>a, b = xs\<close>, which raises
  \<^verbatim>\<open>ValueError\<close> (here \<^term>\<open>None\<close>) unless \<^verbatim>\<open>xs\<close> has two elements.\<close>

definition py_split1 :: "char \<Rightarrow> string \<Rightarrow> string list" where
  "py_split1 c s = (if c \<in> set s then [takeWhile (\<lambda>x. x \<noteq> c) s, tl (dropWhile (\<lambda>x. x \<noteq> c) s)]
                    else [s])"

definition unpack2 :: "'a list \<Rightarrow> ('a \<times> 'a) option" where
  "unpack2 xs = (case xs of [a, b] \<Rightarrow> Some (a, b) | _ \<Rightarrow> None)"

definition unauthorized :: "'b response" where
  \<open>unauthorized = \<lparr>status = 401,
                    resp_headers = [(''WWW-Authenticate'', ''Basic realm="nanobot admin"'')],
                    body = TextBody ''Unauthorized''\<rparr>\<close>

record 'b gate_result =
  handler_called :: bool
  outcome :: "'b outcome"

text \<open>
  \<^verbatim>\<open>_auth_middleware\<close>. The parameter \<open>b64decode_str\<close> is the library call
  \<^verbatim>\<open>base64.b64decode(payload).decode()\<close>: the decoded text, or \<^term>\<open>None\<close> when either
  step raises (\<^verbatim>\<open>binascii.Error\<close>, \<^verbatim>\<open>UnicodeDecodeError\<close>, both caught by
  \<^verbatim>\<open>except Exception\<close>). The call of the handler on line 47 is inside the \<^verbatim>\<open>try\<close>
  block, so an \<^verbatim>\<open>Exception\<close> it raises is swallowed too and control falls through to
  the 401 response.
\<close>

definition auth_middleware ::
  "string \<Rightarrow> (string \<Rightarrow> string option) \<Rightarrow> request \<Rightarrow> (request \<Rightarrow> 'b outcome) \<Rightarrow> 'b gate_result" where
  "auth_middleware password b64decode_str req handler =
     (let denied = \<lparr>handler_called = False, outcome = Returned unauthorized\<rparr> in
      if password = [] then \<lparr>handler_called = True, outcome = handler req\<rparr>
      else
        let auth = headers_get req ''Authorization'' '''' in
        if prefix ''Basic '' auth then
          (case b64decode_str (drop 6 auth) of
             None \<Rightarrow> denied
           | Some decoded \<Rightarrow>
               (case unpack2 (py_split1 CHR '':'' decoded) of
                  None \<Rightarrow> denied
                | Some (_, pwd) \<Rightarrow>
                    if pwd = password then
                      (case handler req of
                         Returned r \<Rightarrow> \<lparr>handler_called = True, outcome = Returned r\<rparr>
                       | Raised e \<Rightarrow>
                           if e = Raised_Exception
                           then \<lparr>handler_called = True, outcome = Returned unauthorized\<rparr>
                           else \<lparr>handler_called = True, outcome = Raised e\<rparr>)
                    else denied))
        else denied)"

subsection \<open>Uptime\<close>



text \<open>\<^verbatim>\<open>str(n)\<close> for an integer: decimal digits, with a minus sign when negative.\<close>

definition digit_char :: "nat \<Rightarrow> char" where
  "digit_char n = char_of (48 + n)"

function str_nat :: "nat \<Rightarrow> string" where
  "str_nat n = (if n < 10 then [digit_char n] else str_nat (n div 10) @ [digit_char (n mod 10)])"
  by pat_completeness auto
termination
  by (relation "measure (\<lambda>n. n)") auto

declare str_nat.simps [simp del]

definition str_int :: "int \<Rightarrow> string" where
  "str_int i = (if i < 0 then CHR ''-'' # str_nat (nat (- i)) else str_nat (nat i))"

fun py_join :: "string \<Rightarrow> string list \<Rightarrow> string" where
  "py_join sep [] = []"
| "py_join sep [p] = p"
| "py_join sep (p # q # ps) = p @ sep @ py_join sep (q # ps)"

text \<open>\<^verbatim>\<open>_format_uptime\<close>; \<^verbatim>\<open>divmod\<close> is floor division, as \<open>div\<close> and \<open>mod\<close> on \<^typ>\<open>int\<close>.\<close>

definition format_uptime :: "int \<Rightarrow> string" where
  "format_uptime seconds =
     (let d = seconds div 86400; rem = seconds mod 86400;
          h = rem div 3600; rem = rem mod 3600;
          m = rem div 60; s = rem mod 60;
          parts = [];
          parts = (if d \<noteq> 0 then parts @ [str_int d @ ''d''] else parts);
          parts = (if h \<noteq> 0 then parts @ [str_int h @ ''h''] else parts);
          parts = (if m \<noteq> 0 then parts @ [str_int m @ ''m''] else parts);
          parts = parts @ [str_int s @ ''s'']
      in py_join '' '' parts)"



text \<open>
  Reading a formatted duration back, after the specification's words: split at the
  spaces, read each segment as a decimal number followed by a unit letter, and add up
  the number of seconds each segment stands for.
\<close>

definition is_digit :: "char \<Rightarrow> bool" where
  "is_digit c = (48 \<le> (of_char c :: nat) \<and> (of_char c :: nat) \<le> 57)"

definition digit_val :: "char \<Rightarrow> nat" where
  "digit_val c = of_char c - 48"

definition read_nat :: "string \<Rightarrow> nat option" where
  "read_nat s = (if s \<noteq> [] \<and> list_all is_digit s
                 then Some (foldl (\<lambda>a c. 10 * a + digit_val c) 0 s) else None)"

fun split_on :: "char \<Rightarrow> string \<Rightarrow> string list" where
  "split_on c [] = [[]]"
| "split_on c (x # xs) =
     (if x = c then [] # split_on c xs
      else (case split_on c xs of [] \<Rightarrow> [[x]] | w # ws \<Rightarrow> (x # w) # ws))"

definition unit_seconds :: "char \<Rightarrow> int option" where
  "unit_seconds u = (if u = CHR ''d'' then Some 86400 else if u = CHR ''h'' then Some 3600
                     else if u = CHR ''m'' then Some 60 else if u = CHR ''s'' then Some 1 else None)"

definition read_segment :: "string \<Rightarrow> int option" where
  "read_segment seg =
     (if seg = [] then None
      else (case (read_nat (butlast seg), unit_seconds (last seg)) of
              (Some v, Some w) \<Rightarrow> Some (int v * w)
            | _ \<Rightarrow> None))"

definition duration_of_text :: "string \<Rightarrow> int option" where
  "duration_of_text txt = map_option sum_list (those (map read_segment (split_on CHR '' '' txt)))"

text \<open>One segment of the output: the number, then its unit letter.\<close>

definition segment :: "int \<Rightarrow> char \<Rightarrow> string" where
  "segment v u = str_int v @ [u]"

subsection \<open>Sessions\<close>

text \<open>
  Modelled from the spec: the session store (\<^verbatim>\<open>session_manager\<close>) is a collaborator
  whose code is not part of this module. \<^verbatim>\<open>list_sessions()\<close> returns the index, a
  sequence of dictionaries with the keys \<^verbatim>\<open>key\<close>, \<^verbatim>\<open>created_at\<close> and
  \<^verbatim>\<open>updated_at\<close>; \<^verbatim>\<open>get_or_create(key)\<close> returns the stored session of that key and
  creates an empty one when there is none; \<^verbatim>\<open>session.messages\<close> is the sequence of
  the raw message dictionaries.
\<close>

record session =
  messages :: "dict list"

record session_manager =
  index :: "dict list"
  store :: "pyval \<rightharpoonup> session"

definition list_sessions :: "session_manager \<Rightarrow> dict list" where
  "list_sessions sm = index sm"

definition get_or_create :: "pyval \<Rightarrow> session_manager \<Rightarrow> session \<times> session_manager" where
  "get_or_create k sm =
     (case store sm k of
        Some s \<Rightarrow> (s, sm)
      | None \<Rightarrow> (\<lparr>messages = []\<rparr>, sm\<lparr>store := (store sm)(k \<mapsto> \<lparr>messages = []\<rparr>)\<rparr>))"

record session_summary =
  s_key :: pyval
  s_messages :: nat
  s_created_at :: pyval
  s_updated_at :: pyval

text \<open>The loop of \<^verbatim>\<open>_handle_sessions\<close> (lines 85 to 93): the entries still to visit, the
  store, and the \<^verbatim>\<open>result\<close> list built so far.\<close>

fun summarise :: "dict list \<Rightarrow> session_manager \<Rightarrow> session_summary list
                    \<Rightarrow> session_summary list \<times> session_manager" where
  "summarise [] sm result = (result, sm)"
| "summarise (s # raw) sm result =
     (let key = dict_get_default s ''key'' (PStr []);
          (session, sm') = get_or_create key sm
      in summarise raw sm'
           (result @ [\<lparr>s_key = key, s_messages = length (messages session),
                        s_created_at = dict_get s ''created_at'',
                        s_updated_at = dict_get s ''updated_at''\<rparr>]))"

text \<open>\<^verbatim>\<open>_handle_sessions\<close>: the response, and the session manager afterwards.\<close>

definition handle_sessions ::
  "session_manager option \<Rightarrow> session_summary list response \<times> session_manager option" where
  "handle_sessions session_manager =
     (case session_manager of
        None \<Rightarrow> (json_response [] 200, None)
      | Some sm \<Rightarrow>
          (let raw = list_sessions sm;
               (result, sm') = summarise raw sm []
           in (json_response result 200, Some sm')))"

record message_view =
  mv_role :: pyval
  mv_content :: pyval
  mv_timestamp :: pyval
  mv_tools_used :: pyval

text \<open>The loop of \<^verbatim>\<open>_handle_session_detail\<close> (lines 103 to 109); an exception raised
  by the slice leaves the loop and the handler.\<close>

fun project_messages :: "dict list \<Rightarrow> message_view list \<Rightarrow> py_exception + message_view list" where
  "project_messages [] acc = Inr acc"
| "project_messages (m # ms) acc =
     (case slice_upto 500 (py_or (dict_get m ''content'') (PStr [])) of
        Inl e \<Rightarrow> Inl e
      | Inr c \<Rightarrow>
          project_messages ms
            (acc @ [\<lparr>mv_role = dict_get m ''role'', mv_content = c,
                     mv_timestamp = dict_get m ''timestamp'',
                     mv_tools_used = dict_get m ''tools_used''\<rparr>]))"

datatype detail_body = ErrorBody string | DetailBody string "message_view list"

text \<open>\<^verbatim>\<open>_handle_session_detail\<close>; \<open>key\<close> is \<^verbatim>\<open>request.match_info["key"]\<close>, which the
  route \<^verbatim>\<open>/api/sessions/{key}\<close> always binds.\<close>

definition handle_session_detail ::
  "session_manager option \<Rightarrow> string
     \<Rightarrow> (py_exception + detail_body response) \<times> session_manager option" where
  "handle_session_detail session_manager key =
     (case session_manager of
        None \<Rightarrow> (Inr (json_response (ErrorBody ''no session manager'') 500), None)
      | Some sm \<Rightarrow>
          (let (session, sm') = get_or_create (PStr key) sm
           in (case project_messages (last_n 100 (messages session)) [] of
                 Inl e \<Rightarrow> (Inl e, Some sm')
               | Inr msgs \<Rightarrow> (Inr (json_response (DetailBody key msgs) 200), Some sm'))))"

subsection \<open>File tree\<close>

text \<open>
  The file system as \<^verbatim>\<open>pathlib\<close> shows it, at one moment: a path is the list of its
  components, \<^verbatim>\<open>root / n\<close> is \<open>root @ [n]\<close> and its \<^verbatim>\<open>name\<close> is \<open>n\<close>.
  \<^verbatim>\<open>is_dir()\<close> and \<^verbatim>\<open>is_file()\<close> follow symbolic links and answer \<^verbatim>\<open>False\<close> for a
  path that cannot be examined, \<^verbatim>\<open>iterdir()\<close> lists the names in a directory in some
  order or raises, \<^verbatim>\<open>stat().st_size\<close> gives the size or raises. Paths are unbounded, so
  a symbolic link to an ancestor is a directory below which \<open>is_dir\<close> holds forever.
\<close>

type_synonym path = "string list"

datatype oserror = PermissionError | OtherOSError

record filesystem =
  is_dir :: "path \<Rightarrow> bool"
  is_file :: "path \<Rightarrow> bool"
  iterdir :: "path \<Rightarrow> oserror + string list"
  st_size :: "path \<Rightarrow> oserror + int"

text \<open>A node dictionary: \<^verbatim>\<open>name\<close> and \<^verbatim>\<open>type\<close> always, \<^verbatim>\<open>size\<close> and
  \<^verbatim>\<open>children\<close> only when the code stores them.\<close>

datatype file_node =
  FileNode (node_name: string) (node_type: string) (node_size: "int option")
    (node_children: "file_node list option")

text \<open>The first exception of a sequence of steps, or all their results.\<close>

fun collect :: "('e + 'a) list \<Rightarrow> 'e + 'a list" where
  "collect [] = Inr []"
| "collect (Inl e # rs) = Inl e"
| "collect (Inr x # rs) = (case collect rs of Inl e \<Rightarrow> Inl e | Inr xs \<Rightarrow> Inr (x # xs))"

text \<open>
  \<^verbatim>\<open>_build_file_tree\<close>. The \<^verbatim>\<open>for\<close> loop appends one node per entry that is not
  skipped, in the order of \<open>entries\<close>; its body has no effect other than raising, so the
  loop is the \<^const>\<open>collect\<close> of the bodies. Python's \<^verbatim>\<open>sorted\<close> is stable, as
  \<^const>\<open>sort_key\<close> is.
\<close>

function build_file_tree :: "filesystem \<Rightarrow> path \<Rightarrow> int \<Rightarrow> oserror + file_node list" where
  "build_file_tree fs root_dir depth =
     (if depth \<le> 0 \<or> \<not> is_dir fs root_dir then Inr []
      else
        (case iterdir fs root_dir of
           Inl e \<Rightarrow> (if e = PermissionError then Inr [] else Inl e)
         | Inr names \<Rightarrow>
             (let entries = sort_key (\<lambda>n. (\<not> is_dir fs (root_dir @ [n]), n)) names
              in collect
                   (map (\<lambda>n.
                      let entry = root_dir @ [n];
                          ty = (if is_dir fs entry then ''dir'' else ''file'');
                          sz = (if is_file fs entry
                                then Some (case st_size fs entry of Inl e \<Rightarrow> 0 | Inr b \<Rightarrow> b)
                                else None)
                      in if is_dir fs entry
                         then (case build_file_tree fs entry (depth - 1) of
                                 Inl e \<Rightarrow> Inl e
                               | Inr cs \<Rightarrow> Inr (FileNode n ty sz (Some cs)))
                         else Inr (FileNode n ty sz None))
                    (filter (\<lambda>n. \<not> prefix ''__pycache__'' n) entries)))))"
  by pat_completeness auto
termination
  by (relation "measure (\<lambda>(fs, root_dir, depth). nat depth)") auto

declare build_file_tree.simps [simp del]

text \<open>\<^verbatim>\<open>_handle_files\<close>, with \<^verbatim>\<open>Path.home()\<close> as a parameter.\<close>

definition handle_files :: "filesystem \<Rightarrow> path \<Rightarrow> (oserror + file_node list response)" where
  "handle_files fs home =
     (case build_file_tree fs (home @ [''.nanobot'']) 3 of
        Inl e \<Rightarrow> Inl e
      | Inr tree \<Rightarrow> Inr (json_response tree 200))"

text \<open>
  Measures on the returned tree: the number of levels below the root, the nodes at any
  level, and the sibling lists (the top level and every \<^verbatim>\<open>children\<close> list).
\<close>

fun node_height :: "file_node \<Rightarrow> nat" where
  "node_height (FileNode n t s cs) =
     Suc (case cs of None \<Rightarrow> 0 | Some ns \<Rightarrow> foldr max (map node_height ns) 0)"

definition forest_height :: "file_node list \<Rightarrow> nat" where
  "forest_height ns = foldr max (map node_height ns) 0"

fun nodes_of :: "file_node \<Rightarrow> file_node list" where
  "nodes_of (FileNode n t s cs) =
     FileNode n t s cs # (case cs of None \<Rightarrow> [] | Some ns \<Rightarrow> concat (map nodes_of ns))"

definition all_nodes :: "file_node list \<Rightarrow> file_node list" where
  "all_nodes ns = concat (map nodes_of ns)"

fun levels_of :: "file_node \<Rightarrow> file_node list list" where
  "levels_of (FileNode n t s cs) =
     (case cs of None \<Rightarrow> [] | Some ns \<Rightarrow> ns # concat (map levels_of ns))"

definition all_levels :: "file_node list \<Rightarrow> file_node list list" where
  "all_levels ns = ns # concat (map levels_of ns)"

text \<open>One sibling list is in order: its directories, sorted by name, then the rest,
  sorted by name.\<close>

definition level_ordered :: "file_node list \<Rightarrow> bool" where
  "level_ordered ns =
     (ns = filter (\<lambda>x. node_type x = ''dir'') ns @ filter (\<lambda>x. node_type x \<noteq> ''dir'') ns
      \<and> sorted (map node_name (filter (\<lambda>x. node_type x = ''dir'') ns))
      \<and> sorted (map node_name (filter (\<lambda>x. node_type x \<noteq> ''dir'') ns)))"

text \<open>
  What the specification expects of the two session views. A message has a text
  content when its \<^verbatim>\<open>content\<close> is absent, \<^verbatim>\<open>None\<close> or a \<^verbatim>\<open>str\<close>; the text is then
  that string, or the empty string. The expected view of a message keeps the other
  three fields and caps the text at 500 characters; the expected summary of an index
  entry counts the messages of the session stored under the entry's key (none when
  nothing is stored).
\<close>

definition text_content :: "dict \<Rightarrow> bool" where
  "text_content m =
     (case m ''content'' of None \<Rightarrow> True | Some PNone \<Rightarrow> True | Some (PStr s) \<Rightarrow> True
      | Some v \<Rightarrow> False)"

definition content_text :: "dict \<Rightarrow> string" where
  "content_text m = (case m ''content'' of Some (PStr s) \<Rightarrow> s | _ \<Rightarrow> [])"

definition view_of :: "dict \<Rightarrow> message_view" where
  "view_of m = \<lparr>mv_role = dict_get m ''role'', mv_content = PStr (take 500 (content_text m)),
                 mv_timestamp = dict_get m ''timestamp'',
                 mv_tools_used = dict_get m ''tools_used''\<rparr>"

definition stored_count :: "session_manager \<Rightarrow> pyval \<Rightarrow> nat" where
  "stored_count sm k = (case store sm k of None \<Rightarrow> 0 | Some s \<Rightarrow> length (messages s))"

definition summary_of :: "session_manager \<Rightarrow> dict \<Rightarrow> session_summary" where
  "summary_of sm s =
     \<lparr>s_key = dict_get_default s ''key'' (PStr []),
      s_messages = stored_count sm (dict_get_default s ''key'' (PStr [])),
      s_created_at = dict_get s ''created_at'',
      s_updated_at = dict_get s ''updated_at''\<rparr>"

text \<open>
  The two parts of the body of \<^const>\<open>build_file_tree\<close>, named for the proofs: the
  entries the loop visits and does not skip, in order, and the node the loop body
  appends for one entry.
\<close>

definition visible_entries :: "filesystem \<Rightarrow> path \<Rightarrow> string list \<Rightarrow> string list" where
  "visible_entries fs root_dir names =
     filter (\<lambda>n. \<not> prefix ''__pycache__'' n)
       (sort_key (\<lambda>n. (\<not> is_dir fs (root_dir @ [n]), n)) names)"

definition entry_node :: "filesystem \<Rightarrow> path \<Rightarrow> int \<Rightarrow> string \<Rightarrow> oserror + file_node" where
  "entry_node fs root_dir depth n =
     (let entry = root_dir @ [n];
          ty = (if is_dir fs entry then ''dir'' else ''file'');
          sz = (if is_file fs entry
                then Some (case st_size fs entry of Inl e \<Rightarrow> 0 | Inr b \<Rightarrow> b)
                else None)
      in if is_dir fs entry
         then (case build_file_tree fs entry (depth - 1) of
                 Inl e \<Rightarrow> Inl e
               | Inr cs \<Rightarrow> Inr (FileNode n ty sz (Some cs)))
         else Inr (FileNode n ty sz None))"

text \<open>
  A small file system to run the walk on: a directory \<^verbatim>\<open>docs\<close> with one file, a
  directory \<^verbatim>\<open>locked\<close> that cannot be listed, a symbolic link \<^verbatim>\<open>loop\<close> to its own
  parent directory, two files (the size of \<^verbatim>\<open>b.txt\<close> cannot be read), a cache
  directory and a socket.
\<close>

definition example_fs :: filesystem where
  "example_fs =
     \<lparr>is_dir = (\<lambda>p. p \<in> set [[], [''docs''], [''locked''], [''__pycache__'']]
                     \<or> (p \<noteq> [] \<and> list_all (\<lambda>c. c = ''loop'') p)),
      is_file = (\<lambda>p. p \<in> set [[''b.txt''], [''Z.txt''], [''docs'', ''x'']]),
      iterdir = (\<lambda>p. if p = [] then Inr [''b.txt'', ''loop'', ''__pycache__'', ''sock'', ''docs'',
                                            ''Z.txt'', ''locked'']
                      else if p = [''docs''] then Inr [''x'']
                      else if p = [''locked''] then Inl PermissionError
                      else if list_all (\<lambda>c. c = ''loop'') p then Inr [''loop'']
                      else Inl OtherOSError),
      st_size = (\<lambda>p. if p = [''Z.txt''] then Inr 12
                      else if p = [''docs'', ''x''] then Inr 5
                      else Inl OtherOSError)\<rparr>"

section \<open>Properties\<close>

subsection \<open>Uptime\<close>










subsection \<open>Duration formatting\<close>

lemma digit_char_props: "n < 10 \<Longrightarrow> is_digit (digit_char n) \<and> digit_val (digit_char n) = n"
  by (simp add: is_digit_def digit_val_def digit_char_def)

lemma str_nat_digits: "str_nat n \<noteq> [] \<and> list_all is_digit (str_nat n)"
proof (induction n rule: str_nat.induct)
  case (1 n)
  show ?case
  proof (cases "n < 10")
    case True
    then show ?thesis by (simp add: str_nat.simps [of n] digit_char_props)
  next
    case False
    have "n mod 10 < 10" by simp
    with False 1 show ?thesis by (simp add: str_nat.simps [of n] digit_char_props)
  qed
qed

lemma str_nat_value: "foldl (\<lambda>a c. 10 * a + digit_val c) 0 (str_nat n) = n"
proof (induction n rule: str_nat.induct)
  case (1 n)
  show ?case
  proof (cases "n < 10")
    case True
    then show ?thesis by (simp add: str_nat.simps [of n] digit_char_props)
  next
    case False
    have "n mod 10 < 10" by simp
    with False 1 show ?thesis by (simp add: str_nat.simps [of n] digit_char_props)
  qed
qed

lemma read_nat_str_nat: "read_nat (str_nat n) = Some n"
  by (simp add: read_nat_def str_nat_digits str_nat_value)

lemma str_nat_no_space: "CHR '' '' \<notin> set (str_nat n)"
proof
  assume "CHR '' '' \<in> set (str_nat n)"
  moreover have "\<forall>c \<in> set (str_nat n). is_digit c"
    using str_nat_digits [of n] by (simp add: list_all_iff)
  ultimately have "is_digit CHR '' ''" by blast
  then show False by (simp add: is_digit_def)
qed

lemma split_on_no_sep: "c \<notin> set p \<Longrightarrow> split_on c (p @ c # rest) = p # split_on c rest"
  by (induction p) auto

lemma split_on_single: "c \<notin> set p \<Longrightarrow> split_on c p = [p]"
  by (induction p) auto

lemma split_on_join:
  "parts \<noteq> [] \<Longrightarrow> \<forall>p \<in> set parts. c \<notin> set p \<Longrightarrow> split_on c (py_join [c] parts) = parts"
proof (induction "[c]" parts rule: py_join.induct)
  case 1
  then show ?case by simp
next
  case (2 p)
  then show ?case by (simp add: split_on_single)
next
  case (3 p q ps)
  then show ?case by (simp add: split_on_no_sep)
qed

lemma read_segment_segment:
  "0 \<le> v \<Longrightarrow> read_segment (segment v u) = map_option (\<lambda>w. v * w) (unit_seconds u)"
  by (cases "unit_seconds u") (simp_all add: read_segment_def segment_def str_int_def read_nat_str_nat)

lemma segment_no_space: "0 \<le> v \<Longrightarrow> u \<noteq> CHR '' '' \<Longrightarrow> CHR '' '' \<notin> set (segment v u)"
  by (simp add: segment_def str_int_def str_nat_no_space)

lemma format_uptime_parts:
  "format_uptime seconds =
     py_join '' ''
       ((if seconds div 86400 \<noteq> 0 then [segment (seconds div 86400) CHR ''d''] else []) @
        (if seconds mod 86400 div 3600 \<noteq> 0 then [segment (seconds mod 86400 div 3600) CHR ''h''] else []) @
        (if seconds mod 3600 div 60 \<noteq> 0 then [segment (seconds mod 3600 div 60) CHR ''m''] else []) @
        [segment (seconds mod 60) CHR ''s''])"
proof -
  have a: "seconds mod 86400 mod 3600 = seconds mod 3600"
    by (simp add: mod_mod_cancel)
  have b: "seconds mod 3600 mod 60 = seconds mod 60"
    by (simp add: mod_mod_cancel)
  define d where "d = seconds div 86400"
  define h where "h = seconds mod 86400 div 3600"
  define m where "m = seconds mod 3600 div 60"
  define s where "s = seconds mod 60"
  have "format_uptime seconds =
     (let parts = [];
          parts = (if d \<noteq> 0 then parts @ [str_int d @ ''d''] else parts);
          parts = (if h \<noteq> 0 then parts @ [str_int h @ ''h''] else parts);
          parts = (if m \<noteq> 0 then parts @ [str_int m @ ''m''] else parts);
          parts = parts @ [str_int s @ ''s'']
      in py_join '' '' parts)"
    unfolding format_uptime_def Let_def a b d_def h_def m_def s_def ..
  also have "\<dots> = py_join '' ''
       ((if d \<noteq> 0 then [segment d CHR ''d''] else []) @
        (if h \<noteq> 0 then [segment h CHR ''h''] else []) @
        (if m \<noteq> 0 then [segment m CHR ''m''] else []) @
        [segment s CHR ''s''])"
    by (cases "d = 0"; cases "h = 0"; cases "m = 0") (simp_all add: segment_def)
  finally show ?thesis unfolding d_def h_def m_def s_def .
qed

lemma decompose_total:
  "(seconds::int) div 86400 * 86400 + seconds mod 86400 div 3600 * 3600
     + seconds mod 3600 div 60 * 60 + seconds mod 60 = seconds"
proof -
  have a: "seconds mod 86400 mod 3600 = seconds mod 3600"
    by (simp add: mod_mod_cancel)
  have b: "seconds mod 3600 mod 60 = seconds mod 60"
    by (simp add: mod_mod_cancel)
  have "seconds = seconds div 86400 * 86400 + seconds mod 86400"
    by simp
  also have "seconds mod 86400 = seconds mod 86400 div 3600 * 3600 + seconds mod 86400 mod 3600"
    by simp
  also have "seconds mod 86400 mod 3600 = seconds mod 3600 div 60 * 60 + seconds mod 3600 mod 60"
    unfolding a by simp
  finally show ?thesis unfolding b by simp
qed

lemma read_parts:
  assumes "0 \<le> d" "0 \<le> h" "0 \<le> m" "0 \<le> s"
  shows "map_option sum_list (those (map read_segment
           ((if d \<noteq> 0 then [segment d CHR ''d''] else []) @
            (if h \<noteq> 0 then [segment h CHR ''h''] else []) @
            (if m \<noteq> 0 then [segment m CHR ''m''] else []) @
            [segment s CHR ''s'']))) = Some (d * 86400 + h * 3600 + m * 60 + s)"
  using assms by (simp add: read_segment_segment unit_seconds_def)

lemma parts_no_space:
  assumes "0 \<le> d" "0 \<le> h" "0 \<le> m" "0 \<le> s"
  shows "\<forall>p \<in> set ((if d \<noteq> 0 then [segment d CHR ''d''] else []) @
            (if h \<noteq> 0 then [segment h CHR ''h''] else []) @
            (if m \<noteq> 0 then [segment m CHR ''m''] else []) @
            [segment s CHR ''s'']). CHR '' '' \<notin> set p"
  using assms by (auto simp: segment_no_space)

lemma format_uptime_split:
  assumes "0 \<le> seconds"
  shows "split_on CHR '' '' (format_uptime seconds) =
       (if seconds div 86400 \<noteq> 0 then [segment (seconds div 86400) CHR ''d''] else []) @
       (if seconds mod 86400 div 3600 \<noteq> 0 then [segment (seconds mod 86400 div 3600) CHR ''h''] else []) @
       (if seconds mod 3600 div 60 \<noteq> 0 then [segment (seconds mod 3600 div 60) CHR ''m''] else []) @
       [segment (seconds mod 60) CHR ''s'']"
proof -
  let ?d = "seconds div 86400" and ?h = "seconds mod 86400 div 3600"
  let ?m = "seconds mod 3600 div 60" and ?s = "seconds mod 60"
  have nn: "0 \<le> ?d" "0 \<le> ?h" "0 \<le> ?m" "0 \<le> ?s"
    using assms by (simp_all add: pos_imp_zdiv_nonneg_iff)
  show ?thesis
    unfolding format_uptime_parts
    by (rule split_on_join) (simp, rule parts_no_space [OF nn])
qed

lemma format_uptime_roundtrip:
  assumes "0 \<le> seconds"
  shows "duration_of_text (format_uptime seconds) = Some seconds"
proof -
  let ?d = "seconds div 86400" and ?h = "seconds mod 86400 div 3600"
  let ?m = "seconds mod 3600 div 60" and ?s = "seconds mod 60"
  have nn: "0 \<le> ?d" "0 \<le> ?h" "0 \<le> ?m" "0 \<le> ?s"
    using assms by (simp_all add: pos_imp_zdiv_nonneg_iff)
  show ?thesis
    unfolding duration_of_text_def format_uptime_split [OF assms]
    by (simp only: read_parts [OF nn] decompose_total)
qed

lemma format_uptime_zero: "format_uptime 0 = ''0s''"
  by code_simp

lemma format_uptime_90061: "format_uptime 90061 = ''1d 1h 1m 1s''"
  by code_simp

text \<open>
  C5: for every \<open>seconds \<ge> 0\<close> the output is the join, with single spaces, of the
  day, hour and minute segments whose value is not zero and of the seconds segment,
  in this order, the values being those of the division by 86400, 3600 and 60 with
  remainder; splitting the output at the spaces gives these segments back; reading the
  output back gives \<open>seconds\<close>; 0 gives \<^verbatim>\<open>0s\<close> and 90061 gives \<^verbatim>\<open>1d 1h 1m 1s\<close>.
\<close>

theorem format_uptime_spec:
  assumes "0 \<le> seconds"
  shows "format_uptime seconds =
     py_join '' ''
       ((if seconds div 86400 \<noteq> 0 then [segment (seconds div 86400) CHR ''d''] else []) @
        (if seconds mod 86400 div 3600 \<noteq> 0 then [segment (seconds mod 86400 div 3600) CHR ''h''] else []) @
        (if seconds mod 3600 div 60 \<noteq> 0 then [segment (seconds mod 3600 div 60) CHR ''m''] else []) @
        [segment (seconds mod 60) CHR ''s''])
   \<and> split_on CHR '' '' (format_uptime seconds) =
       (if seconds div 86400 \<noteq> 0 then [segment (seconds div 86400) CHR ''d''] else []) @
       (if seconds mod 86400 div 3600 \<noteq> 0 then [segment (seconds mod 86400 div 3600) CHR ''h''] else []) @
       (if seconds mod 3600 div 60 \<noteq> 0 then [segment (seconds mod 3600 div 60) CHR ''m''] else []) @
       [segment (seconds mod 60) CHR ''s'']
   \<and> duration_of_text (format_uptime seconds) = Some seconds
   \<and> format_uptime 0 = ''0s''
   \<and> format_uptime 90061 = ''1d 1h 1m 1s''"
  using format_uptime_parts [of seconds] format_uptime_split [OF assms]
    format_uptime_roundtrip [OF assms] format_uptime_zero format_uptime_90061
  by (intro conjI)

theorem format_uptime_spec_witness:
  "(0::int) \<le> 3725 \<and> format_uptime 3725 = ''1h 2m 5s'' \<and>
   duration_of_text (format_uptime 3725) = Some 3725"
proof -
  have h: "(0::int) \<le> 3725" by simp
  have v: "format_uptime 3725 = ''1h 2m 5s''" by code_simp
  from format_uptime_spec [OF h] have "duration_of_text (format_uptime 3725) = Some 3725"
    by (elim conjE)
  with h v show ?thesis by (intro conjI)
qed

subsection \<open>Auth middleware: the gate\<close>

lemma unpack2_split1:
  "unpack2 (py_split1 c s) =
     (if c \<in> set s then Some (takeWhile (\<lambda>x. x \<noteq> c) s, tl (dropWhile (\<lambda>x. x \<noteq> c) s)) else None)"
  by (simp add: unpack2_def py_split1_def)

lemma after_first_sep:
  "(c \<in> set s \<and> tl (dropWhile (\<lambda>x. x \<noteq> c) s) = pw) \<longleftrightarrow> (\<exists>user. s = user @ c # pw \<and> c \<notin> set user)"
proof
  assume a: "c \<in> set s \<and> tl (dropWhile (\<lambda>x. x \<noteq> c) s) = pw"
  then have "dropWhile (\<lambda>x. x \<noteq> c) s \<noteq> []" by simp
  then have "hd (dropWhile (\<lambda>x. x \<noteq> c) s) = c"
    using hd_dropWhile [of "\<lambda>x. x \<noteq> c" s] by simp
  with a \<open>dropWhile (\<lambda>x. x \<noteq> c) s \<noteq> []\<close> have "dropWhile (\<lambda>x. x \<noteq> c) s = c # pw"
    by (cases "dropWhile (\<lambda>x. x \<noteq> c) s") auto
  then have "s = takeWhile (\<lambda>x. x \<noteq> c) s @ c # pw"
    using takeWhile_dropWhile_id [of "\<lambda>x. x \<noteq> c" s] by simp
  moreover have "c \<notin> set (takeWhile (\<lambda>x. x \<noteq> c) s)"
    by (auto dest: set_takeWhileD)
  ultimately show "\<exists>user. s = user @ c # pw \<and> c \<notin> set user" by blast
next
  assume "\<exists>user. s = user @ c # pw \<and> c \<notin> set user"
  then obtain user where u: "s = user @ c # pw" "c \<notin> set user" by blast
  then have "dropWhile (\<lambda>x. x \<noteq> c) s = c # pw"
    by (subst u(1), subst dropWhile_append2) auto
  with u show "c \<in> set s \<and> tl (dropWhile (\<lambda>x. x \<noteq> c) s) = pw" by simp
qed

lemma basic_prefix:
  "prefix ''Basic '' (headers_get req ''Authorization'' []) \<longleftrightarrow>
     (\<exists>payload. headers req ''Authorization'' = Some (''Basic '' @ payload))"
  by (cases "headers req ''Authorization''") (auto simp: headers_get_def prefix_def)

lemma basic_payload:
  "headers req ''Authorization'' = Some (''Basic '' @ payload) \<Longrightarrow>
     drop 6 (headers_get req ''Authorization'' []) = payload"
  by (simp add: headers_get_def)

lemma called_iff:
  assumes "password \<noteq> []"
  shows "handler_called (auth_middleware password dec req handler) \<longleftrightarrow>
     (\<exists>payload user. headers req ''Authorization'' = Some (''Basic '' @ payload) \<and>
        dec payload = Some (user @ CHR '':'' # password) \<and> CHR '':'' \<notin> set user)"
proof (cases "\<exists>payload. headers req ''Authorization'' = Some (''Basic '' @ payload)")
  case False
  then have "\<not> prefix ''Basic '' (headers_get req ''Authorization'' [])"
    by (simp only: basic_prefix not_False_eq_True)
  with assms have "\<not> handler_called (auth_middleware password dec req handler)"
    by (simp add: auth_middleware_def Let_def)
  with False show ?thesis by blast
next
  case True
  then obtain payload where p: "headers req ''Authorization'' = Some (''Basic '' @ payload)"
    by blast
  have pre: "prefix ''Basic '' (headers_get req ''Authorization'' [])"
    using True by (simp only: basic_prefix)
  have dr: "drop 6 (headers_get req ''Authorization'' []) = payload"
    by (rule basic_payload [OF p])
  have "handler_called (auth_middleware password dec req handler) \<longleftrightarrow>
          (\<exists>decoded. dec payload = Some decoded \<and> CHR '':'' \<in> set decoded \<and>
             tl (dropWhile (\<lambda>x. x \<noteq> CHR '':'') decoded) = password)"
    using assms pre
    by (cases "dec payload"; cases "handler req")
       (auto simp add: auth_middleware_def Let_def dr unpack2_split1)
  also have "\<dots> \<longleftrightarrow> (\<exists>user. dec payload = Some (user @ CHR '':'' # password) \<and> CHR '':'' \<notin> set user)"
    using after_first_sep [of "CHR '':''" _ password] by (metis option.inject)
  finally show ?thesis using p by auto
qed


lemma denied_response:
  "\<not> handler_called (auth_middleware password dec req handler) \<Longrightarrow>
     outcome (auth_middleware password dec req handler) = Returned unauthorized"
  by (cases "handler req")
     (auto simp add: auth_middleware_def Let_def split: if_splits option.splits)

lemma called_returns:
  "handler_called (auth_middleware password dec req handler) \<Longrightarrow> handler req = Returned r \<Longrightarrow>
     outcome (auth_middleware password dec req handler) = Returned r"
  by (auto simp add: auth_middleware_def Let_def split: if_splits option.splits)

lemma unauthorized_challenge:
  "status (unauthorized :: 'b response) = 401 \<and>
   (\<exists>v. map_of (resp_headers (unauthorized :: 'b response)) ''WWW-Authenticate'' = Some v \<and>
        prefix ''Basic'' v)"
  by (simp add: unauthorized_def)

text \<open>
  C1: with the empty password the handler runs on every request and its outcome is
  passed on; with a non-empty password the handler is called exactly when the
  \<^verbatim>\<open>Authorization\<close> header is \<^verbatim>\<open>Basic\<close>, a space and a payload that decodes to some
  text followed by the first colon and the password; whenever the handler is not called
  the response is the 401 response, whose \<^verbatim>\<open>WWW-Authenticate\<close> header is a \<^verbatim>\<open>Basic\<close>
  challenge; and a response returned by a handler that was called is passed on.
\<close>

theorem auth_gate:
  "(password = [] \<longrightarrow>
      auth_middleware password dec req handler = \<lparr>handler_called = True, outcome = handler req\<rparr>)
   \<and> (password \<noteq> [] \<longrightarrow>
        (handler_called (auth_middleware password dec req handler) \<longleftrightarrow>
           (\<exists>payload user. headers req ''Authorization'' = Some (''Basic '' @ payload) \<and>
              dec payload = Some (user @ CHR '':'' # password) \<and> CHR '':'' \<notin> set user)))
   \<and> (\<not> handler_called (auth_middleware password dec req handler) \<longrightarrow>
        outcome (auth_middleware password dec req handler) = Returned unauthorized)
   \<and> (\<forall>r. handler_called (auth_middleware password dec req handler) \<and> handler req = Returned r \<longrightarrow>
        outcome (auth_middleware password dec req handler) = Returned r)
   \<and> status (unauthorized :: 'b response) = 401
   \<and> (\<exists>v. map_of (resp_headers (unauthorized :: 'b response)) ''WWW-Authenticate'' = Some v \<and>
        prefix ''Basic'' v)"
proof (intro conjI impI allI)
  assume "password = []"
  then show "auth_middleware password dec req handler
               = \<lparr>handler_called = True, outcome = handler req\<rparr>"
    by (simp add: auth_middleware_def)
next
  assume "password \<noteq> []"
  then show "handler_called (auth_middleware password dec req handler) \<longleftrightarrow>
           (\<exists>payload user. headers req ''Authorization'' = Some (''Basic '' @ payload) \<and>
              dec payload = Some (user @ CHR '':'' # password) \<and> CHR '':'' \<notin> set user)"
    by (rule called_iff)
next
  assume "\<not> handler_called (auth_middleware password dec req handler)"
  then show "outcome (auth_middleware password dec req handler) = Returned unauthorized"
    by (rule denied_response)
next
  fix r
  assume "handler_called (auth_middleware password dec req handler) \<and> handler req = Returned r"
  then show "outcome (auth_middleware password dec req handler) = Returned r"
    by (simp add: called_returns)
next
  show "status (unauthorized :: 'b response) = 401"
    using unauthorized_challenge by blast
next
  show "\<exists>v. map_of (resp_headers (unauthorized :: 'b response)) ''WWW-Authenticate'' = Some v \<and>
        prefix ''Basic'' v"
    using unauthorized_challenge by blast
qed

theorem auth_gate_witness:
  "''secret'' \<noteq> [] \<and>
   handler_called
     (auth_middleware ''secret''
        (\<lambda>p. if p = ''dXNlcjpzZWNyZXQ='' then Some ''user:secret'' else None)
        \<lparr>headers = [''Authorization'' \<mapsto> ''Basic dXNlcjpzZWNyZXQ='']\<rparr>
        (\<lambda>q. Returned (json_response () 200))) \<and>
   \<not> handler_called
     (auth_middleware ''secret''
        (\<lambda>p. if p = ''dXNlcjpzZWNyZXQ='' then Some ''user:secret'' else None)
        \<lparr>headers = Map.empty\<rparr>
        (\<lambda>q. Returned (json_response () 200))) \<and>
   outcome
     (auth_middleware ''secret''
        (\<lambda>p. if p = ''dXNlcjpzZWNyZXQ='' then Some ''user:secret'' else None)
        \<lparr>headers = Map.empty\<rparr>
        (\<lambda>q. Returned (json_response () 200))) = Returned unauthorized"
proof -
  let ?dec = "\<lambda>p. if p = ''dXNlcjpzZWNyZXQ='' then Some ''user:secret'' else None"
  let ?h = "\<lambda>q::request. Returned (json_response () 200)"
  let ?good = "\<lparr>headers = [''Authorization'' \<mapsto> ''Basic dXNlcjpzZWNyZXQ='']\<rparr>"
  let ?none = "\<lparr>headers = Map.empty\<rparr> :: request"
  have pw: "''secret'' \<noteq> []" by simp
  have ex: "\<exists>payload user. headers ?good ''Authorization'' = Some (''Basic '' @ payload) \<and>
              ?dec payload = Some (user @ CHR '':'' # ''secret'') \<and> CHR '':'' \<notin> set user"
    by (rule exI [of _ "''dXNlcjpzZWNyZXQ=''"], rule exI [of _ "''user''"]) simp
  have a: "handler_called (auth_middleware ''secret'' ?dec ?good ?h)"
    using auth_gate [of "''secret''" ?dec ?good ?h] pw ex by blast
  have nex: "\<not> (\<exists>payload user. headers ?none ''Authorization'' = Some (''Basic '' @ payload) \<and>
              ?dec payload = Some (user @ CHR '':'' # ''secret'') \<and> CHR '':'' \<notin> set user)"
    by simp
  have b: "\<not> handler_called (auth_middleware ''secret'' ?dec ?none ?h)"
    using auth_gate [of "''secret''" ?dec ?none ?h] pw nex by blast
  have c: "outcome (auth_middleware ''secret'' ?dec ?none ?h) = Returned unauthorized"
    using auth_gate [of "''secret''" ?dec ?none ?h] b by blast
  from pw a b c show ?thesis by (intro conjI)
qed

text \<open>
  C9: with a non-empty password, a \<^verbatim>\<open>Basic\<close> header whose payload decodes to a text
  without a colon is answered with the 401 response and the handler is not called,
  whatever that text is, the password itself included: \<^verbatim>\<open>split(":", 1)\<close> gives one
  part, and unpacking it into two names raises.
\<close>

theorem no_colon_denied:
  assumes "password \<noteq> []"
    and "headers req ''Authorization'' = Some (''Basic '' @ payload)"
    and "dec payload = Some decoded"
    and "CHR '':'' \<notin> set decoded"
  shows "auth_middleware password dec req handler
           = \<lparr>handler_called = False, outcome = Returned unauthorized\<rparr>
         \<and> status (unauthorized :: 'b response) = 401"
proof -
  have dr: "drop 6 (headers_get req ''Authorization'' []) = payload"
    by (rule basic_payload [OF assms(2)])
  have pre: "prefix ''Basic '' (headers_get req ''Authorization'' [])"
    using assms(2) by (simp add: headers_get_def)
  have "unpack2 (py_split1 CHR '':'' decoded) = None"
    using assms(4) by (simp add: unpack2_split1)
  with assms(1,3) pre dr show ?thesis
    by (simp add: auth_middleware_def Let_def unauthorized_def)
qed

theorem no_colon_denied_witness:
  "''secret'' \<noteq> [] \<and> CHR '':'' \<notin> set ''secret'' \<and>
   auth_middleware ''secret''
      (\<lambda>p. if p = ''c2VjcmV0'' then Some ''secret'' else None)
      \<lparr>headers = [''Authorization'' \<mapsto> ''Basic c2VjcmV0'']\<rparr>
      (\<lambda>q. Returned (json_response () 200))
     = \<lparr>handler_called = False, outcome = Returned unauthorized\<rparr>"
proof -
  let ?dec = "\<lambda>p. if p = ''c2VjcmV0'' then Some ''secret'' else None"
  let ?req = "\<lparr>headers = [''Authorization'' \<mapsto> ''Basic c2VjcmV0'']\<rparr>"
  have h1: "''secret'' \<noteq> []" by simp
  have h2: "headers ?req ''Authorization'' = Some (''Basic '' @ ''c2VjcmV0'')" by simp
  have h3: "?dec ''c2VjcmV0'' = Some ''secret''" by simp
  have h4: "CHR '':'' \<notin> set ''secret''" by simp
  from no_colon_denied [of "''secret''" ?req "''c2VjcmV0''" ?dec "''secret''", OF h1 h2 h3 h4]
  have "auth_middleware ''secret'' ?dec ?req (\<lambda>q. Returned (json_response () 200))
     = \<lparr>handler_called = False, outcome = Returned unauthorized\<rparr>"
    by blast
  with h1 h4 show ?thesis by (intro conjI)
qed

subsection \<open>Session detail\<close>

lemma slice_text_content:
  "text_content m \<Longrightarrow>
     slice_upto 500 (py_or (dict_get m ''content'') (PStr [])) = Inr (PStr (take 500 (content_text m)))"
  by (auto simp add: text_content_def content_text_def dict_get_def py_or_def
           split: option.splits pyval.splits)

lemma project_messages_text:
  "\<forall>m \<in> set ms. text_content m \<Longrightarrow> project_messages ms acc = Inr (acc @ map view_of ms)"
proof (induction ms arbitrary: acc)
  case Nil
  then show ?case by simp
next
  case (Cons m ms)
  then have "project_messages (m # ms) acc = project_messages ms (acc @ [view_of m])"
    by (simp add: slice_text_content view_of_def)
  with Cons show ?case by simp
qed

lemma last_n_length: "length (last_n n xs) = min n (length xs)"
  by (simp add: last_n_def)

lemma last_n_all: "length xs \<le> n \<Longrightarrow> last_n n xs = xs"
  by (simp add: last_n_def)

lemma set_last_n: "set (last_n n xs) \<subseteq> set xs"
  by (simp add: last_n_def set_drop_subset)

lemma view_content_capped:
  "mv_content (view_of m) = PStr (take 500 (content_text m)) \<and>
   length (take 500 (content_text m)) = min 500 (length (content_text m))"
  by (simp add: view_of_def min.commute)

lemma get_or_create_existing: "store sm k = Some s \<Longrightarrow> get_or_create k sm = (s, sm)"
  by (simp add: get_or_create_def)

text \<open>
  C2: for a session that exists in the store and whose messages have text contents,
  the detail view answers 200 with the views of the last 100 messages in their order:
  all of them when there are at most 100, the last 100 of 150; each view holds the
  first 500 characters of the content, the empty string when the content is absent or
  \<^verbatim>\<open>None\<close>, and exactly 500 characters for a content of 10000; the store is unchanged.
\<close>

theorem session_detail_view:
  assumes "store sm (PStr key) = Some sess"
    and "\<forall>m \<in> set (messages sess). text_content m"
  shows "handle_session_detail (Some sm) key =
           (Inr (json_response (DetailBody key (map view_of (last_n 100 (messages sess)))) 200),
            Some sm)
     \<and> last_n 100 (messages sess) = drop (length (messages sess) - 100) (messages sess)
     \<and> length (map view_of (last_n 100 (messages sess))) = min 100 (length (messages sess))
     \<and> (length (messages sess) \<le> 100 \<longrightarrow> last_n 100 (messages sess) = messages sess)
     \<and> (length (messages sess) = 150 \<longrightarrow>
           last_n 100 (messages sess) = drop 50 (messages sess) \<and>
           length (map view_of (last_n 100 (messages sess))) = 100)
     \<and> (\<forall>m \<in> set (messages sess).
           mv_content (view_of m) = PStr (take 500 (content_text m)) \<and>
           length (take 500 (content_text m)) \<le> 500 \<and>
           (length (content_text m) = 10000 \<longrightarrow> length (take 500 (content_text m)) = 500) \<and>
           (m ''content'' = None \<or> m ''content'' = Some PNone \<longrightarrow> mv_content (view_of m) = PStr []))"
proof (intro conjI impI ballI)
  have "\<forall>m \<in> set (last_n 100 (messages sess)). text_content m"
    using assms(2) set_last_n [of 100 "messages sess"] by blast
  then have "project_messages (last_n 100 (messages sess)) []
               = Inr (map view_of (last_n 100 (messages sess)))"
    by (simp add: project_messages_text)
  then show "handle_session_detail (Some sm) key =
           (Inr (json_response (DetailBody key (map view_of (last_n 100 (messages sess)))) 200),
            Some sm)"
    by (simp add: handle_session_detail_def get_or_create_existing [OF assms(1)])
next
  show "last_n 100 (messages sess) = drop (length (messages sess) - 100) (messages sess)"
    by (simp add: last_n_def)
next
  show "length (map view_of (last_n 100 (messages sess))) = min 100 (length (messages sess))"
    by (simp add: last_n_length)
next
  assume "length (messages sess) \<le> 100"
  then show "last_n 100 (messages sess) = messages sess" by (rule last_n_all)
next
  assume "length (messages sess) = 150"
  then show "last_n 100 (messages sess) = drop 50 (messages sess)"
    by (simp add: last_n_def)
next
  assume "length (messages sess) = 150"
  then show "length (map view_of (last_n 100 (messages sess))) = 100"
    by (simp add: last_n_length)
next
  fix m
  show "mv_content (view_of m) = PStr (take 500 (content_text m))"
    by (simp add: view_of_def)
next
  fix m
  show "length (take 500 (content_text m)) \<le> 500" by simp
next
  fix m
  assume "length (content_text m) = 10000"
  then show "length (take 500 (content_text m)) = 500" by simp
next
  fix m
  assume "m ''content'' = None \<or> m ''content'' = Some PNone"
  then show "mv_content (view_of m) = PStr []"
    by (auto simp add: view_of_def content_text_def)
qed


theorem session_detail_view_witness:
  "store \<lparr>index = [], store = [PStr ''k'' \<mapsto> \<lparr>messages =
        [[''role'' \<mapsto> PStr ''user'', ''content'' \<mapsto> PStr ''hi''],
         [''role'' \<mapsto> PStr ''assistant'']]\<rparr>]\<rparr> (PStr ''k'')
     = Some \<lparr>messages =
        [[''role'' \<mapsto> PStr ''user'', ''content'' \<mapsto> PStr ''hi''],
         [''role'' \<mapsto> PStr ''assistant'']]\<rparr>
   \<and> handle_session_detail
        (Some \<lparr>index = [], store = [PStr ''k'' \<mapsto> \<lparr>messages =
        [[''role'' \<mapsto> PStr ''user'', ''content'' \<mapsto> PStr ''hi''],
         [''role'' \<mapsto> PStr ''assistant'']]\<rparr>]\<rparr>) ''k''
     = (Inr (json_response (DetailBody ''k''
          [\<lparr>mv_role = PStr ''user'', mv_content = PStr ''hi'', mv_timestamp = PNone,
            mv_tools_used = PNone\<rparr>,
           \<lparr>mv_role = PStr ''assistant'', mv_content = PStr [], mv_timestamp = PNone,
            mv_tools_used = PNone\<rparr>]) 200),
        Some \<lparr>index = [], store = [PStr ''k'' \<mapsto> \<lparr>messages =
        [[''role'' \<mapsto> PStr ''user'', ''content'' \<mapsto> PStr ''hi''],
         [''role'' \<mapsto> PStr ''assistant'']]\<rparr>]\<rparr>)
   \<and> length (map view_of (last_n 100 (messages \<lparr>messages =
          replicate 150 [''content'' \<mapsto> PStr (replicate 10000 CHR ''a'')]\<rparr>))) = 100
   \<and> mv_content (view_of [''content'' \<mapsto> PStr (replicate 10000 CHR ''a'')])
        = PStr (replicate 500 CHR ''a'')"
proof -
  let ?m1 = "[''role'' \<mapsto> PStr ''user'', ''content'' \<mapsto> PStr ''hi'']"
  let ?m2 = "[''role'' \<mapsto> PStr ''assistant'']"
  let ?sess = "\<lparr>messages = [?m1, ?m2]\<rparr>"
  let ?sm = "\<lparr>index = [], store = [PStr ''k'' \<mapsto> ?sess]\<rparr>"
  let ?big = "[''content'' \<mapsto> PStr (replicate 10000 CHR ''a'')]"
  let ?sess2 = "\<lparr>messages = replicate 150 ?big\<rparr>"
  let ?sm2 = "\<lparr>index = [], store = [PStr ''k'' \<mapsto> ?sess2]\<rparr>"
  have h1: "store ?sm (PStr ''k'') = Some ?sess" by simp
  have h2: "\<forall>m \<in> set (messages ?sess). text_content m"
    by (simp add: text_content_def)
  have v: "map view_of (last_n 100 (messages ?sess)) =
          [\<lparr>mv_role = PStr ''user'', mv_content = PStr ''hi'', mv_timestamp = PNone,
            mv_tools_used = PNone\<rparr>,
           \<lparr>mv_role = PStr ''assistant'', mv_content = PStr [], mv_timestamp = PNone,
            mv_tools_used = PNone\<rparr>]"
    by (simp add: last_n_def view_of_def content_text_def dict_get_def)
  have a: "handle_session_detail (Some ?sm) ''k''
     = (Inr (json_response (DetailBody ''k''
          [\<lparr>mv_role = PStr ''user'', mv_content = PStr ''hi'', mv_timestamp = PNone,
            mv_tools_used = PNone\<rparr>,
           \<lparr>mv_role = PStr ''assistant'', mv_content = PStr [], mv_timestamp = PNone,
            mv_tools_used = PNone\<rparr>]) 200), Some ?sm)"
    using session_detail_view [OF h1 h2] unfolding v by blast
  have g1: "store ?sm2 (PStr ''k'') = Some ?sess2" by simp
  have g2: "\<forall>m \<in> set (messages ?sess2). text_content m"
    by (simp add: text_content_def)
  have g3: "length (messages ?sess2) = 150" by simp
  have b: "length (map view_of (last_n 100 (messages ?sess2))) = 100"
    using session_detail_view [OF g1 g2] g3 by blast
  have "?big \<in> set (messages ?sess2)" by simp
  with session_detail_view [OF g1 g2]
  have "mv_content (view_of ?big) = PStr (take 500 (content_text ?big))" by blast
  then have c: "mv_content (view_of ?big) = PStr (replicate 500 CHR ''a'')"
    by (simp add: content_text_def)
  from h1 a b c show ?thesis by (intro conjI)
qed

subsection \<open>Session list\<close>

lemma get_or_create_count:
  "length (messages (fst (get_or_create k sm))) = stored_count sm k"
  by (simp add: get_or_create_def stored_count_def split: option.splits)

lemma get_or_create_keeps_count:
  "stored_count (snd (get_or_create k sm)) k' = stored_count sm k'"
  by (simp add: get_or_create_def stored_count_def split: option.splits)

lemma get_or_create_keeps_summary:
  "summary_of (snd (get_or_create k sm)) s = summary_of sm s"
  by (simp add: summary_of_def get_or_create_keeps_count)

lemma summarise_eq:
  "fst (summarise raw sm result) = result @ map (summary_of sm) raw"
proof (induction raw arbitrary: sm result)
  case Nil
  then show ?case by simp
next
  case (Cons s raw)
  let ?key = "dict_get_default s ''key'' (PStr [])"
  obtain session sm' where g: "get_or_create ?key sm = (session, sm')"
    by (cases "get_or_create ?key sm")
  have len: "length (messages session) = stored_count sm ?key"
    using get_or_create_count [of ?key sm] g by simp
  have keep: "map (summary_of sm') raw = map (summary_of sm) raw"
    using get_or_create_keeps_summary [of ?key sm] g by simp
  have "fst (summarise (s # raw) sm result)
          = fst (summarise raw sm' (result @ [summary_of sm s]))"
    by (simp add: g len summary_of_def Let_def)
  also have "\<dots> = (result @ [summary_of sm s]) @ map (summary_of sm') raw"
    by (rule Cons.IH)
  finally show ?case by (simp add: keep)
qed

text \<open>
  C7: without a session manager the list view answers 200 with the empty list; with
  one it answers 200 with one summary per index entry, in order, whose key is the
  entry's key and whose message count is the length of the message sequence of the
  session that \<^verbatim>\<open>get_or_create\<close> returns for that key, which is the number of
  messages stored under the key.
\<close>

theorem session_list_counts:
  "handle_sessions None = (json_response [] 200, None)
   \<and> status (fst (handle_sessions None)) = 200
   \<and> fst (handle_sessions (Some sm)) = json_response (map (summary_of sm) (list_sessions sm)) 200
   \<and> (\<forall>s \<in> set (list_sessions sm).
         s_key (summary_of sm s) = dict_get_default s ''key'' (PStr []) \<and>
         s_messages (summary_of sm s)
           = length (messages (fst (get_or_create (dict_get_default s ''key'' (PStr [])) sm))) \<and>
         s_messages (summary_of sm s) = stored_count sm (dict_get_default s ''key'' (PStr [])))"
proof (intro conjI ballI)
  show "handle_sessions None = (json_response [] 200, None)"
    by (simp add: handle_sessions_def)
next
  show "status (fst (handle_sessions None)) = 200"
    by (simp add: handle_sessions_def json_response_def)
next
  have "fst (handle_sessions (Some sm))
          = json_response (fst (summarise (list_sessions sm) sm [])) 200"
    by (simp add: handle_sessions_def Let_def split: prod.splits)
  then show "fst (handle_sessions (Some sm))
               = json_response (map (summary_of sm) (list_sessions sm)) 200"
    by (simp add: summarise_eq)
next
  fix s
  show "s_key (summary_of sm s) = dict_get_default s ''key'' (PStr [])"
    by (simp add: summary_of_def)
next
  fix s
  show "s_messages (summary_of sm s)
           = length (messages (fst (get_or_create (dict_get_default s ''key'' (PStr [])) sm)))"
    by (simp add: summary_of_def get_or_create_count)
next
  fix s
  show "s_messages (summary_of sm s) = stored_count sm (dict_get_default s ''key'' (PStr []))"
    by (simp add: summary_of_def)
qed

theorem session_list_counts_witness:
  "fst (handle_sessions (Some \<lparr>index = [[''key'' \<mapsto> PStr ''a''], [''key'' \<mapsto> PStr ''b'']],
          store = [PStr ''a'' \<mapsto> \<lparr>messages = [Map.empty, Map.empty]\<rparr>]\<rparr>))
    = json_response
        [\<lparr>s_key = PStr ''a'', s_messages = 2, s_created_at = PNone, s_updated_at = PNone\<rparr>,
         \<lparr>s_key = PStr ''b'', s_messages = 0, s_created_at = PNone, s_updated_at = PNone\<rparr>] 200"
proof -
  let ?sm = "\<lparr>index = [[''key'' \<mapsto> PStr ''a''], [''key'' \<mapsto> PStr ''b'']],
          store = [PStr ''a'' \<mapsto> \<lparr>messages = [Map.empty, Map.empty]\<rparr>]\<rparr>"
  have "fst (handle_sessions (Some ?sm)) = json_response (map (summary_of ?sm) (list_sessions ?sm)) 200"
    using session_list_counts [of ?sm] by blast
  then show ?thesis
    by (simp add: list_sessions_def summary_of_def stored_count_def dict_get_default_def dict_get_def
          numeral_2_eq_2)
qed

subsection \<open>File tree: depth\<close>

lemma build_base: "depth \<le> 0 \<or> \<not> is_dir fs r \<Longrightarrow> build_file_tree fs r depth = Inr []"
  by (simp add: build_file_tree.simps [of fs r depth])

lemma build_denied:
  "0 < depth \<Longrightarrow> is_dir fs r \<Longrightarrow> iterdir fs r = Inl PermissionError \<Longrightarrow>
     build_file_tree fs r depth = Inr []"
  by (simp add: build_file_tree.simps [of fs r depth])

lemma build_raises:
  "0 < depth \<Longrightarrow> is_dir fs r \<Longrightarrow> iterdir fs r = Inl e \<Longrightarrow> e \<noteq> PermissionError \<Longrightarrow>
     build_file_tree fs r depth = Inl e"
  by (simp add: build_file_tree.simps [of fs r depth])

lemma build_step:
  "0 < depth \<Longrightarrow> is_dir fs r \<Longrightarrow> iterdir fs r = Inr names \<Longrightarrow>
     build_file_tree fs r depth = collect (map (entry_node fs r depth) (visible_entries fs r names))"
  by (simp add: build_file_tree.simps [of fs r depth] visible_entries_def entry_node_def [abs_def] Let_def)

lemma list_all2_right: "list_all2 P xs ys \<Longrightarrow> y \<in> set ys \<Longrightarrow> \<exists>x \<in> set xs. P x y"
  by (induction rule: list_all2_induct) auto

lemma list_all2_left: "list_all2 P xs ys \<Longrightarrow> x \<in> set xs \<Longrightarrow> \<exists>y \<in> set ys. P x y"
  by (induction rule: list_all2_induct) auto

lemma collect_map:
  "collect (map f xs) = Inr ys \<Longrightarrow> list_all2 (\<lambda>x y. f x = Inr y) xs ys"
proof (induction xs arbitrary: ys)
  case Nil
  then show ?case by simp
next
  case (Cons x xs)
  show ?case
  proof (cases "f x")
    case (Inl e)
    with Cons.prems show ?thesis by simp
  next
    case fx: (Inr y)
    show ?thesis
    proof (cases "collect (map f xs)")
      case (Inl e)
      with Cons.prems fx show ?thesis by simp
    next
      case (Inr ys')
      with Cons.prems fx have "ys = y # ys'" by simp
      with Cons.IH [OF Inr] fx show ?thesis by simp
    qed
  qed
qed

lemma collect_succeeds:
  "\<forall>x \<in> set xs. \<exists>y. f x = Inr y \<Longrightarrow> \<exists>ys. collect (map f xs) = Inr ys"
proof (induction xs)
  case Nil
  then show ?case by simp
next
  case (Cons x xs)
  then obtain y ys where "f x = Inr y" "collect (map f xs) = Inr ys" by auto
  then show ?case by simp
qed

lemma entry_node_shape:
  assumes "entry_node fs r d n = Inr node"
  shows "node_name node = n"
    and "node_type node = (if is_dir fs (r @ [n]) then ''dir'' else ''file'')"
    and "node_size node = (if is_file fs (r @ [n])
                           then Some (case st_size fs (r @ [n]) of Inl e \<Rightarrow> 0 | Inr b \<Rightarrow> b)
                           else None)"
    and "is_dir fs (r @ [n]) \<Longrightarrow>
           \<exists>cs. build_file_tree fs (r @ [n]) (d - 1) = Inr cs \<and> node_children node = Some cs"
    and "\<not> is_dir fs (r @ [n]) \<Longrightarrow> node_children node = None"
  using assms by (auto simp add: entry_node_def Let_def split: if_splits sum.splits)

lemma node_height_children:
  "node_height node = Suc (case node_children node of None \<Rightarrow> 0 | Some cs \<Rightarrow> forest_height cs)"
  by (cases node) (simp add: forest_height_def split: option.splits)

lemma forest_height_le: "\<forall>x \<in> set ns. node_height x \<le> k \<Longrightarrow> forest_height ns \<le> k"
  by (induction ns) (auto simp add: forest_height_def)

lemma height_bound: "build_file_tree fs r d = Inr ns \<Longrightarrow> forest_height ns \<le> nat d"
proof (induction "nat d" arbitrary: d r ns)
  case 0
  then have "d \<le> 0" by simp
  with "0.prems" have "ns = []" by (simp add: build_base)
  then show ?case by (simp add: forest_height_def)
next
  case (Suc k)
  then have pos: "0 < d" and k: "k = nat (d - 1)" by simp_all
  show ?case
  proof (cases "is_dir fs r")
    case False
    with Suc.prems have "ns = []" by (simp add: build_base)
    then show ?thesis by (simp add: forest_height_def)
  next
    case True
    show ?thesis
    proof (cases "iterdir fs r")
      case (Inl e)
      with Suc.prems pos True have "ns = []"
        by (cases "e = PermissionError") (simp_all add: build_denied build_raises)
      then show ?thesis by (simp add: forest_height_def)
    next
      case (Inr names)
      with Suc.prems pos True
      have all: "list_all2 (\<lambda>n y. entry_node fs r d n = Inr y) (visible_entries fs r names) ns"
        by (simp add: build_step collect_map)
      have "\<forall>x \<in> set ns. node_height x \<le> nat d"
      proof
        fix x
        assume "x \<in> set ns"
        with all obtain n where n: "entry_node fs r d n = Inr x"
          by (blast dest: list_all2_right)
        show "node_height x \<le> nat d"
        proof (cases "is_dir fs (r @ [n])")
          case True
          with entry_node_shape(4) [OF n] obtain cs
            where cs: "build_file_tree fs (r @ [n]) (d - 1) = Inr cs" "node_children x = Some cs"
            by blast
          from Suc.hyps(1) [OF k cs(1)] have "forest_height cs \<le> nat (d - 1)" .
          with cs(2) pos show ?thesis by (simp add: node_height_children)
        next
          case False
          with entry_node_shape(5) [OF n] have "node_children x = None" by simp
          with pos show ?thesis by (simp add: node_height_children)
        qed
      qed
      then show ?thesis by (rule forest_height_le)
    qed
  qed
qed

lemma entries_of_result:
  assumes "build_file_tree fs r d = Inr ns" and "ns \<noteq> []"
  shows "\<exists>names. 0 < d \<and> is_dir fs r \<and> iterdir fs r = Inr names \<and>
           list_all2 (\<lambda>n y. entry_node fs r d n = Inr y) (visible_entries fs r names) ns"
proof -
  have "\<not> (d \<le> 0 \<or> \<not> is_dir fs r)"
  proof
    assume "d \<le> 0 \<or> \<not> is_dir fs r"
    then have "build_file_tree fs r d = Inr []" by (rule build_base)
    with assms show False by simp
  qed
  then have pos: "0 < d" and dir: "is_dir fs r" by auto
  show ?thesis
  proof (cases "iterdir fs r")
    case (Inl e)
    with assms pos dir show ?thesis
      by (cases "e = PermissionError") (simp_all add: build_denied build_raises)
  next
    case (Inr names)
    with assms(1) pos dir
    have "list_all2 (\<lambda>n y. entry_node fs r d n = Inr y) (visible_entries fs r names) ns"
      by (simp add: build_step collect_map)
    with pos dir Inr show ?thesis by blast
  qed
qed

lemma node_of_result:
  assumes "build_file_tree fs r d = Inr ns" and "x \<in> set ns"
  shows "\<exists>names n. 0 < d \<and> is_dir fs r \<and> iterdir fs r = Inr names \<and>
           n \<in> set (visible_entries fs r names) \<and> entry_node fs r d n = Inr x"
proof -
  from assms(2) have "ns \<noteq> []" by auto
  from entries_of_result [OF assms(1) this] obtain names
    where n: "0 < d" "is_dir fs r" "iterdir fs r = Inr names"
      "list_all2 (\<lambda>n y. entry_node fs r d n = Inr y) (visible_entries fs r names) ns"
    by blast
  from list_all2_right [OF n(4) assms(2)]
  obtain m where "m \<in> set (visible_entries fs r names)" "entry_node fs r d m = Inr x"
    by blast
  with n(1,2,3) show ?thesis by blast
qed

lemma children_of_result:
  assumes "build_file_tree fs r d = Inr ns" and "x \<in> set ns" and "node_children x = Some cs"
  shows "build_file_tree fs (r @ [node_name x]) (d - 1) = Inr cs"
proof -
  from node_of_result [OF assms(1,2)] obtain n where n: "entry_node fs r d n = Inr x"
    by blast
  have dir: "is_dir fs (r @ [n])"
    using entry_node_shape(5) [OF n] assms(3) by auto
  from entry_node_shape(4) [OF n dir] assms(3) entry_node_shape(1) [OF n]
  show ?thesis by auto
qed

text \<open>
  C3: the walk is a total function whose recursion goes from \<open>depth\<close> to \<open>depth - 1\<close>
  (the termination proof of \<^const>\<open>build_file_tree\<close>): it returns the empty sequence
  when \<open>depth \<le> 0\<close> or the root is not a directory; the children of a returned node
  are the walk of that entry with \<open>depth - 1\<close>; and a returned tree has at most
  \<open>depth\<close> levels, so no node lies deeper than \<open>depth\<close>.
\<close>

theorem file_tree_depth_bound:
  "(depth \<le> 0 \<or> \<not> is_dir fs r \<longrightarrow> build_file_tree fs r depth = Inr [])
   \<and> (\<forall>ns. build_file_tree fs r depth = Inr ns \<longrightarrow>
         int (forest_height ns) \<le> max 0 depth \<and>
         (\<forall>x \<in> set ns. \<forall>cs. node_children x = Some cs \<longrightarrow>
            build_file_tree fs (r @ [node_name x]) (depth - 1) = Inr cs))"
proof (intro conjI impI allI ballI)
  assume "depth \<le> 0 \<or> \<not> is_dir fs r"
  then show "build_file_tree fs r depth = Inr []" by (rule build_base)
next
  fix ns
  assume "build_file_tree fs r depth = Inr ns"
  then have "forest_height ns \<le> nat depth" by (rule height_bound)
  then show "int (forest_height ns) \<le> max 0 depth" by simp
next
  fix ns x cs
  assume "build_file_tree fs r depth = Inr ns" "x \<in> set ns" "node_children x = Some cs"
  then show "build_file_tree fs (r @ [node_name x]) (depth - 1) = Inr cs"
    by (rule children_of_result)
qed

lemma example_walk:
  "build_file_tree example_fs [] 2 =
     Inr [FileNode ''docs'' ''dir'' None (Some [FileNode ''x'' ''file'' (Some 5) None]),
          FileNode ''locked'' ''dir'' None (Some []),
          FileNode ''loop'' ''dir'' None (Some [FileNode ''loop'' ''dir'' None (Some [])]),
          FileNode ''Z.txt'' ''file'' (Some 12) None,
          FileNode ''b.txt'' ''file'' (Some 0) None,
          FileNode ''sock'' ''file'' None None]"
  by code_simp

theorem file_tree_depth_bound_witness:
  "build_file_tree example_fs [] 0 = Inr [] \<and>
   int (forest_height
     [FileNode ''docs'' ''dir'' None (Some [FileNode ''x'' ''file'' (Some 5) None]),
      FileNode ''locked'' ''dir'' None (Some []),
      FileNode ''loop'' ''dir'' None (Some [FileNode ''loop'' ''dir'' None (Some [])]),
      FileNode ''Z.txt'' ''file'' (Some 12) None,
      FileNode ''b.txt'' ''file'' (Some 0) None,
      FileNode ''sock'' ''file'' None None]) \<le> max 0 2 \<and>
   build_file_tree example_fs [''loop''] 1 = Inr [FileNode ''loop'' ''dir'' None (Some [])]"
proof -
  let ?loop = "FileNode ''loop'' ''dir'' None (Some [FileNode ''loop'' ''dir'' None (Some [])])"
  let ?tree = "[FileNode ''docs'' ''dir'' None (Some [FileNode ''x'' ''file'' (Some 5) None]),
      FileNode ''locked'' ''dir'' None (Some []), ?loop,
      FileNode ''Z.txt'' ''file'' (Some 12) None,
      FileNode ''b.txt'' ''file'' (Some 0) None,
      FileNode ''sock'' ''file'' None None]"
  have z: "(0::int) \<le> 0 \<or> \<not> is_dir example_fs []" by simp
  have a: "build_file_tree example_fs [] 0 = Inr []"
    by (rule file_tree_depth_bound [of 0 example_fs "[]", THEN conjunct1, THEN mp, OF z])
  note t = file_tree_depth_bound [of 2 example_fs "[]", THEN conjunct2, THEN spec, THEN mp,
      OF example_walk]
  have b: "int (forest_height ?tree) \<le> max 0 2"
    by (rule t [THEN conjunct1])
  have m: "?loop \<in> set ?tree" by simp
  have ch: "node_children ?loop = Some [FileNode ''loop'' ''dir'' None (Some [])]" by simp
  have "build_file_tree example_fs ([] @ [node_name ?loop]) (2 - 1)
          = Inr [FileNode ''loop'' ''dir'' None (Some [])]"
    by (rule t [THEN conjunct2, THEN bspec, OF m, THEN spec, THEN mp, OF ch])
  then have c: "build_file_tree example_fs [''loop''] 1 = Inr [FileNode ''loop'' ''dir'' None (Some [])]"
    by simp
  from a b c show ?thesis by (intro conjI)
qed

subsection \<open>File tree: order, exclusion and degradation\<close>

lemma sorted_pairs_split:
  fixes b :: "'a \<Rightarrow> bool" and nm :: "'a \<Rightarrow> string"
  assumes "sorted (map (\<lambda>x. (b x, nm x)) xs)"
  shows "xs = filter (\<lambda>x. \<not> b x) xs @ filter b xs
         \<and> sorted (map nm (filter (\<lambda>x. \<not> b x) xs))
         \<and> sorted (map nm (filter b xs))"
  using assms
proof (induction xs)
  case Nil
  then show ?case by simp
next
  case (Cons x xs)
  then have ih: "xs = filter (\<lambda>x. \<not> b x) xs @ filter b xs"
      "sorted (map nm (filter (\<lambda>x. \<not> b x) xs))" "sorted (map nm (filter b xs))"
    by simp_all
  from Cons.prems have le: "\<forall>y \<in> set xs. (b x, nm x) \<le> (b y, nm y)" by simp
  show ?case
  proof (cases "b x")
    case True
    with le have all: "\<forall>y \<in> set xs. b y \<and> nm x \<le> nm y"
      by (auto simp add: less_eq_prod_def)
    then have "filter (\<lambda>x. \<not> b x) xs = []" "filter b xs = xs"
      by (simp_all add: filter_empty_conv filter_id_conv)
    with True ih all show ?thesis by simp
  next
    case False
    with le have "\<forall>y \<in> set xs. \<not> b y \<longrightarrow> nm x \<le> nm y"
      by (auto simp add: less_eq_prod_def)
    with False ih show ?thesis by auto
  qed
qed

lemma level_ordered_keys:
  assumes "sorted (map (\<lambda>x. (node_type x \<noteq> ''dir'', node_name x)) ns)"
  shows "level_ordered ns"
  using sorted_pairs_split [of "\<lambda>x. node_type x \<noteq> ''dir''" node_name ns, OF assms]
  by (simp add: level_ordered_def)

lemma visible_sorted:
  "sorted (map (\<lambda>n. (\<not> is_dir fs (r @ [n]), n)) (visible_entries fs r names))"
  unfolding visible_entries_def by (rule sorted_filter) (rule sorted_sort_key)

lemma visible_set:
  "set (visible_entries fs r names) = {n \<in> set names. \<not> prefix ''__pycache__'' n}"
  by (auto simp add: visible_entries_def)

lemma keys_of_nodes:
  "list_all2 (\<lambda>n y. entry_node fs r d n = Inr y) es ns \<Longrightarrow>
     map (\<lambda>x. (node_type x \<noteq> ''dir'', node_name x)) ns = map (\<lambda>n. (\<not> is_dir fs (r @ [n]), n)) es"
proof (induction rule: list_all2_induct)
  case Nil
  then show ?case by simp
next
  case (Cons n es y ns)
  from entry_node_shape(1,2) [OF Cons.hyps(1)] Cons.IH show ?case by simp
qed

lemma top_level_ordered:
  assumes "build_file_tree fs r d = Inr ns"
  shows "level_ordered ns"
proof (cases "ns = []")
  case True
  then show ?thesis by (simp add: level_ordered_def)
next
  case False
  from entries_of_result [OF assms False] obtain names
    where "list_all2 (\<lambda>n y. entry_node fs r d n = Inr y) (visible_entries fs r names) ns"
    by blast
  then have "map (\<lambda>x. (node_type x \<noteq> ''dir'', node_name x)) ns
               = map (\<lambda>n. (\<not> is_dir fs (r @ [n]), n)) (visible_entries fs r names)"
    by (rule keys_of_nodes)
  then have "sorted (map (\<lambda>x. (node_type x \<noteq> ''dir'', node_name x)) ns)"
    by (simp only: visible_sorted)
  then show ?thesis by (rule level_ordered_keys)
qed

lemma top_level_not_excluded:
  assumes "build_file_tree fs r d = Inr ns" and "x \<in> set ns"
  shows "\<not> prefix ''__pycache__'' (node_name x)"
proof -
  from node_of_result [OF assms] obtain names n
    where n: "n \<in> set (visible_entries fs r names)" "entry_node fs r d n = Inr x"
    by blast
  from n(1) have "\<not> prefix ''__pycache__'' n" by (simp add: visible_set)
  with entry_node_shape(1) [OF n(2)] show ?thesis by simp
qed

lemma levels_of_children:
  "levels_of x = (case node_children x of None \<Rightarrow> [] | Some cs \<Rightarrow> all_levels cs)"
  by (cases x) (simp add: all_levels_def split: option.splits)

lemma nodes_of_children:
  "nodes_of x = x # (case node_children x of None \<Rightarrow> [] | Some cs \<Rightarrow> all_nodes cs)"
  by (cases x) (simp add: all_nodes_def split: option.splits)

lemma in_all_levels:
  "lvl \<in> set (all_levels ns) \<longleftrightarrow>
     lvl = ns \<or> (\<exists>x \<in> set ns. \<exists>cs. node_children x = Some cs \<and> lvl \<in> set (all_levels cs))"
  by (auto simp add: all_levels_def [of ns] levels_of_children split: option.splits)

lemma in_all_nodes:
  "y \<in> set (all_nodes ns) \<longleftrightarrow>
     y \<in> set ns \<or> (\<exists>x \<in> set ns. \<exists>cs. node_children x = Some cs \<and> y \<in> set (all_nodes cs))"
proof -
  have "y \<in> set (all_nodes ns) \<longleftrightarrow> (\<exists>x \<in> set ns. y \<in> set (nodes_of x))"
    by (simp add: all_nodes_def [of ns])
  also have "\<dots> \<longleftrightarrow> (\<exists>x \<in> set ns. y = x \<or>
       (\<exists>cs. node_children x = Some cs \<and> y \<in> set (all_nodes cs)))"
    by (rule bex_cong [OF refl]) (auto simp add: nodes_of_children split: option.splits)
  finally show ?thesis by blast
qed

lemma tree_ordered:
  "build_file_tree fs r d = Inr ns \<Longrightarrow> lvl \<in> set (all_levels ns) \<Longrightarrow> level_ordered lvl"
proof (induction "nat d" arbitrary: d r ns)
  case 0
  then have "d \<le> 0" by simp
  with "0.prems"(1) have "ns = []" by (simp add: build_base)
  with "0.prems"(2) show ?case by (simp add: all_levels_def level_ordered_def)
next
  case (Suc k)
  then have k: "k = nat (d - 1)" by simp
  from Suc.prems(2) consider "lvl = ns"
    | x cs where "x \<in> set ns" "node_children x = Some cs" "lvl \<in> set (all_levels cs)"
    unfolding in_all_levels [of lvl ns] by blast
  then show ?case
  proof cases
    case 1
    with Suc.prems(1) show ?thesis by (simp add: top_level_ordered)
  next
    case 2
    from children_of_result [OF Suc.prems(1) 2(1,2)]
    have "build_file_tree fs (r @ [node_name x]) (d - 1) = Inr cs" .
    from Suc.hyps(1) [OF k this 2(3)] show ?thesis .
  qed
qed

lemma tree_not_excluded:
  "build_file_tree fs r d = Inr ns \<Longrightarrow> y \<in> set (all_nodes ns) \<Longrightarrow>
     \<not> prefix ''__pycache__'' (node_name y)"
proof (induction "nat d" arbitrary: d r ns)
  case 0
  then have "d \<le> 0" by simp
  with "0.prems"(1) have "ns = []" by (simp add: build_base)
  with "0.prems"(2) show ?case by (simp add: all_nodes_def)
next
  case (Suc k)
  then have k: "k = nat (d - 1)" by simp
  from Suc.prems(2) consider "y \<in> set ns"
    | x cs where "x \<in> set ns" "node_children x = Some cs" "y \<in> set (all_nodes cs)"
    unfolding in_all_nodes [of y ns] by blast
  then show ?case
  proof cases
    case 1
    with Suc.prems(1) show ?thesis by (rule top_level_not_excluded)
  next
    case 2
    from children_of_result [OF Suc.prems(1) 2(1,2)]
    have "build_file_tree fs (r @ [node_name x]) (d - 1) = Inr cs" .
    from Suc.hyps(1) [OF k this 2(3)] show ?thesis .
  qed
qed


text \<open>
  C6: in a tree the walk returns, every sibling list (the top level and each
  \<^verbatim>\<open>children\<close> list) has its directories first and then the other entries, each of
  the two groups in lexicographic order of the names, and no node at any level has a
  name that starts with \<^verbatim>\<open>__pycache__\<close>.
\<close>

theorem file_tree_order_and_exclusion:
  assumes "build_file_tree fs r depth = Inr ns"
  shows "(\<forall>lvl \<in> set (all_levels ns). level_ordered lvl)
         \<and> (\<forall>y \<in> set (all_nodes ns). \<not> prefix ''__pycache__'' (node_name y))"
  using tree_ordered [OF assms] tree_not_excluded [OF assms] by blast

theorem file_tree_order_and_exclusion_witness:
  "build_file_tree example_fs [] 2 =
     Inr [FileNode ''docs'' ''dir'' None (Some [FileNode ''x'' ''file'' (Some 5) None]),
          FileNode ''locked'' ''dir'' None (Some []),
          FileNode ''loop'' ''dir'' None (Some [FileNode ''loop'' ''dir'' None (Some [])]),
          FileNode ''Z.txt'' ''file'' (Some 12) None,
          FileNode ''b.txt'' ''file'' (Some 0) None,
          FileNode ''sock'' ''file'' None None]
   \<and> level_ordered
         [FileNode ''docs'' ''dir'' None (Some [FileNode ''x'' ''file'' (Some 5) None]),
          FileNode ''locked'' ''dir'' None (Some []),
          FileNode ''loop'' ''dir'' None (Some [FileNode ''loop'' ''dir'' None (Some [])]),
          FileNode ''Z.txt'' ''file'' (Some 12) None,
          FileNode ''b.txt'' ''file'' (Some 0) None,
          FileNode ''sock'' ''file'' None None]
   \<and> \<not> prefix ''__pycache__'' (node_name (FileNode ''x'' ''file'' (Some 5) None))"
proof -
  let ?x = "FileNode ''x'' ''file'' (Some 5) None"
  let ?tree = "[FileNode ''docs'' ''dir'' None (Some [?x]),
          FileNode ''locked'' ''dir'' None (Some []),
          FileNode ''loop'' ''dir'' None (Some [FileNode ''loop'' ''dir'' None (Some [])]),
          FileNode ''Z.txt'' ''file'' (Some 12) None,
          FileNode ''b.txt'' ''file'' (Some 0) None,
          FileNode ''sock'' ''file'' None None]"
  note t = file_tree_order_and_exclusion [OF example_walk]
  have l: "?tree \<in> set (all_levels ?tree)" by (simp add: all_levels_def)
  have n: "?x \<in> set (all_nodes ?tree)" by (simp add: all_nodes_def)
  have a: "level_ordered ?tree" by (rule t [THEN conjunct1, THEN bspec, OF l])
  have b: "\<not> prefix ''__pycache__'' (node_name ?x)" by (rule t [THEN conjunct2, THEN bspec, OF n])
  from example_walk a b show ?thesis by (intro conjI)
qed

lemma node_for_entry:
  assumes "build_file_tree fs r d = Inr ns" and "0 < d" and "is_dir fs r"
    and "iterdir fs r = Inr names" and "n \<in> set names" and "\<not> prefix ''__pycache__'' n"
  shows "\<exists>x \<in> set ns. entry_node fs r d n = Inr x"
proof -
  from assms(1-4)
  have all: "list_all2 (\<lambda>n y. entry_node fs r d n = Inr y) (visible_entries fs r names) ns"
    by (simp add: build_step collect_map)
  from assms(5,6) have "n \<in> set (visible_entries fs r names)" by (simp add: visible_set)
  with all show ?thesis by (rule list_all2_left)
qed

lemma walk_succeeds:
  assumes "\<forall>p e. iterdir fs p = Inl e \<longrightarrow> e = PermissionError"
  shows "\<exists>ns. build_file_tree fs r d = Inr ns"
proof (induction "nat d" arbitrary: d r)
  case 0
  then have "d \<le> 0" by simp
  then show ?case by (simp add: build_base)
next
  case (Suc k)
  then have pos: "0 < d" and k: "k = nat (d - 1)" by simp_all
  show ?case
  proof (cases "is_dir fs r")
    case False
    then show ?thesis by (simp add: build_base)
  next
    case True
    show ?thesis
    proof (cases "iterdir fs r")
      case (Inl e)
      with assms have "e = PermissionError" by blast
      with Inl pos True show ?thesis by (simp add: build_denied)
    next
      case (Inr names)
      have "\<forall>n \<in> set (visible_entries fs r names). \<exists>y. entry_node fs r d n = Inr y"
      proof
        fix n
        from Suc.hyps(1) [OF k, of "r @ [n]"] obtain cs
          where "build_file_tree fs (r @ [n]) (d - 1) = Inr cs" by blast
        then show "\<exists>y. entry_node fs r d n = Inr y"
          by (simp add: entry_node_def Let_def)
      qed
      then have "\<exists>ns. collect (map (entry_node fs r d) (visible_entries fs r names)) = Inr ns"
        by (rule collect_succeeds)
      with pos True Inr show ?thesis by (simp add: build_step)
    qed
  qed
qed

text \<open>
  C8: a directory whose listing raises \<^verbatim>\<open>PermissionError\<close> has the empty sequence as
  its snapshot, and in the snapshot of its parent it is a node with no children; when
  permission errors are the only errors a listing raises, the walk returns a tree from
  every root and for every depth, whatever \<^verbatim>\<open>stat\<close> does; and a file whose size
  cannot be read is a node of size 0 in the snapshot of its directory.
\<close>

theorem file_tree_degrades:
  "(0 < depth \<and> is_dir fs r \<and> iterdir fs r = Inl PermissionError \<longrightarrow>
      build_file_tree fs r depth = Inr [])
   \<and> ((\<forall>p e. iterdir fs p = Inl e \<longrightarrow> e = PermissionError) \<longrightarrow>
        (\<exists>ns. build_file_tree fs r depth = Inr ns))
   \<and> (\<forall>ns names n.
        build_file_tree fs r depth = Inr ns \<and> 0 < depth \<and> is_dir fs r \<and>
        iterdir fs r = Inr names \<and> n \<in> set names \<and> \<not> prefix ''__pycache__'' n \<longrightarrow>
          (is_dir fs (r @ [n]) \<and> iterdir fs (r @ [n]) = Inl PermissionError \<longrightarrow>
             (\<exists>x \<in> set ns. node_name x = n \<and> node_type x = ''dir'' \<and> node_children x = Some []))
          \<and> (is_file fs (r @ [n]) \<and> (\<exists>e. st_size fs (r @ [n]) = Inl e) \<longrightarrow>
             (\<exists>x \<in> set ns. node_name x = n \<and> node_size x = Some 0)))"
proof (intro conjI impI allI)
  assume "0 < depth \<and> is_dir fs r \<and> iterdir fs r = Inl PermissionError"
  then show "build_file_tree fs r depth = Inr []" by (simp add: build_denied)
next
  assume "\<forall>p e. iterdir fs p = Inl e \<longrightarrow> e = PermissionError"
  then show "\<exists>ns. build_file_tree fs r depth = Inr ns" by (rule walk_succeeds)
next
  fix ns names n
  assume a: "build_file_tree fs r depth = Inr ns \<and> 0 < depth \<and> is_dir fs r \<and>
        iterdir fs r = Inr names \<and> n \<in> set names \<and> \<not> prefix ''__pycache__'' n"
    and b: "is_dir fs (r @ [n]) \<and> iterdir fs (r @ [n]) = Inl PermissionError"
  from a obtain x where x: "x \<in> set ns" "entry_node fs r depth n = Inr x"
    using node_for_entry [of fs r depth ns names n] by blast
  have "build_file_tree fs (r @ [n]) (depth - 1) = Inr []"
    using b by (cases "0 < depth - 1") (simp_all add: build_denied build_base)
  with entry_node_shape(4) [OF x(2)] b have "node_children x = Some []" by auto
  with entry_node_shape(1,2) [OF x(2)] b x(1)
  show "\<exists>x \<in> set ns. node_name x = n \<and> node_type x = ''dir'' \<and> node_children x = Some []"
    by auto
next
  fix ns names n
  assume a: "build_file_tree fs r depth = Inr ns \<and> 0 < depth \<and> is_dir fs r \<and>
        iterdir fs r = Inr names \<and> n \<in> set names \<and> \<not> prefix ''__pycache__'' n"
    and b: "is_file fs (r @ [n]) \<and> (\<exists>e. st_size fs (r @ [n]) = Inl e)"
  from a obtain x where x: "x \<in> set ns" "entry_node fs r depth n = Inr x"
    using node_for_entry [of fs r depth ns names n] by blast
  from entry_node_shape(3) [OF x(2)] b have "node_size x = Some 0" by auto
  with entry_node_shape(1) [OF x(2)] x(1)
  show "\<exists>x \<in> set ns. node_name x = n \<and> node_size x = Some 0" by auto
qed

theorem file_tree_degrades_witness:
  "build_file_tree example_fs [''locked''] 3 = Inr []
   \<and> (\<exists>ns. build_file_tree (example_fs\<lparr>iterdir := \<lambda>p. Inl PermissionError\<rparr>) [] 3 = Inr ns)
   \<and> (\<exists>x \<in> set [FileNode ''docs'' ''dir'' None (Some [FileNode ''x'' ''file'' (Some 5) None]),
          FileNode ''locked'' ''dir'' None (Some []),
          FileNode ''loop'' ''dir'' None (Some [FileNode ''loop'' ''dir'' None (Some [])]),
          FileNode ''Z.txt'' ''file'' (Some 12) None,
          FileNode ''b.txt'' ''file'' (Some 0) None,
          FileNode ''sock'' ''file'' None None].
        node_name x = ''locked'' \<and> node_type x = ''dir'' \<and> node_children x = Some [])
   \<and> (\<exists>x \<in> set [FileNode ''docs'' ''dir'' None (Some [FileNode ''x'' ''file'' (Some 5) None]),
          FileNode ''locked'' ''dir'' None (Some []),
          FileNode ''loop'' ''dir'' None (Some [FileNode ''loop'' ''dir'' None (Some [])]),
          FileNode ''Z.txt'' ''file'' (Some 12) None,
          FileNode ''b.txt'' ''file'' (Some 0) None,
          FileNode ''sock'' ''file'' None None].
        node_name x = ''b.txt'' \<and> node_size x = Some 0)"
proof -
  let ?tree = "[FileNode ''docs'' ''dir'' None (Some [FileNode ''x'' ''file'' (Some 5) None]),
          FileNode ''locked'' ''dir'' None (Some []),
          FileNode ''loop'' ''dir'' None (Some [FileNode ''loop'' ''dir'' None (Some [])]),
          FileNode ''Z.txt'' ''file'' (Some 12) None,
          FileNode ''b.txt'' ''file'' (Some 0) None,
          FileNode ''sock'' ''file'' None None]"
  let ?names = "[''b.txt'', ''loop'', ''__pycache__'', ''sock'', ''docs'', ''Z.txt'', ''locked'']"
  let ?denied = "example_fs\<lparr>iterdir := \<lambda>p. Inl PermissionError\<rparr>"
  have h1: "(0::int) < 3 \<and> is_dir example_fs [''locked''] \<and>
              iterdir example_fs [''locked''] = Inl PermissionError"
    by (simp add: example_fs_def)
  have a: "build_file_tree example_fs [''locked''] 3 = Inr []"
    by (rule file_tree_degrades [of 3 example_fs "[''locked'']", THEN conjunct1, THEN mp, OF h1])
  have h2: "\<forall>p e. iterdir ?denied p = Inl e \<longrightarrow> e = PermissionError" by simp
  have b: "\<exists>ns. build_file_tree ?denied [] 3 = Inr ns"
    by (rule file_tree_degrades [of 3 ?denied "[]", THEN conjunct2, THEN conjunct1, THEN mp, OF h2])
  note t = file_tree_degrades [of 2 example_fs "[]", THEN conjunct2, THEN conjunct2]
  have h3: "build_file_tree example_fs [] 2 = Inr ?tree \<and> (0::int) < 2 \<and> is_dir example_fs [] \<and>
        iterdir example_fs [] = Inr ?names \<and> ''locked'' \<in> set ?names \<and>
        \<not> prefix ''__pycache__'' ''locked''"
    using example_walk by (simp add: example_fs_def)
  have h4: "is_dir example_fs ([] @ [''locked'']) \<and>
            iterdir example_fs ([] @ [''locked'']) = Inl PermissionError"
    by (simp add: example_fs_def)
  have c: "\<exists>x \<in> set ?tree. node_name x = ''locked'' \<and> node_type x = ''dir'' \<and>
             node_children x = Some []"
    by (rule t [THEN spec, THEN spec, THEN spec, THEN mp, OF h3, THEN conjunct1, THEN mp, OF h4])
  have h5: "build_file_tree example_fs [] 2 = Inr ?tree \<and> (0::int) < 2 \<and> is_dir example_fs [] \<and>
        iterdir example_fs [] = Inr ?names \<and> ''b.txt'' \<in> set ?names \<and>
        \<not> prefix ''__pycache__'' ''b.txt''"
    using example_walk by (simp add: example_fs_def)
  have h6: "is_file example_fs ([] @ [''b.txt'']) \<and> (\<exists>e. st_size example_fs ([] @ [''b.txt'']) = Inl e)"
    by (simp add: example_fs_def)
  have d: "\<exists>x \<in> set ?tree. node_name x = ''b.txt'' \<and> node_size x = Some 0"
    by (rule t [THEN spec, THEN spec, THEN spec, THEN mp, OF h5, THEN conjunct2, THEN mp, OF h6])
  from a b c d show ?thesis by (intro conjI)
qed

text \<open>
  C10: an entry that is not skipped and is neither a directory nor a regular file is a
  node of the snapshot with type \<^verbatim>\<open>file\<close>, no size and no children.
\<close>

theorem special_entry_node:
  assumes "build_file_tree fs r depth = Inr ns" and "0 < depth" and "is_dir fs r"
    and "iterdir fs r = Inr names" and "n \<in> set names" and "\<not> prefix ''__pycache__'' n"
    and "\<not> is_dir fs (r @ [n])" and "\<not> is_file fs (r @ [n])"
  shows "FileNode n ''file'' None None \<in> set ns"
proof -
  from node_for_entry [OF assms(1-6)] obtain x
    where x: "x \<in> set ns" "entry_node fs r depth n = Inr x" by blast
  from x(2) assms(7,8) have "x = FileNode n ''file'' None None"
    by (simp add: entry_node_def Let_def)
  with x(1) show ?thesis by simp
qed


theorem special_entry_node_witness:
  "\<not> is_dir example_fs ([] @ [''sock'']) \<and> \<not> is_file example_fs ([] @ [''sock'']) \<and>
   FileNode ''sock'' ''file'' None None
     \<in> set [FileNode ''docs'' ''dir'' None (Some [FileNode ''x'' ''file'' (Some 5) None]),
          FileNode ''locked'' ''dir'' None (Some []),
          FileNode ''loop'' ''dir'' None (Some [FileNode ''loop'' ''dir'' None (Some [])]),
          FileNode ''Z.txt'' ''file'' (Some 12) None,
          FileNode ''b.txt'' ''file'' (Some 0) None,
          FileNode ''sock'' ''file'' None None]"
proof -
  let ?names = "[''b.txt'', ''loop'', ''__pycache__'', ''sock'', ''docs'', ''Z.txt'', ''locked'']"
  have h2: "(0::int) < 2" by simp
  have h3: "is_dir example_fs []" by (simp add: example_fs_def)
  have h4: "iterdir example_fs [] = Inr ?names" by (simp add: example_fs_def)
  have h5: "''sock'' \<in> set ?names" by simp
  have h6: "\<not> prefix ''__pycache__'' ''sock''" by simp
  have h7: "\<not> is_dir example_fs ([] @ [''sock''])" by (simp add: example_fs_def)
  have h8: "\<not> is_file example_fs ([] @ [''sock''])" by (simp add: example_fs_def)
  from h7 h8 special_entry_node [OF example_walk h2 h3 h4 h5 h6 h7 h8]
  show ?thesis by (intro conjI)
qed

end
